theory Spec2Isabelle
  imports Main "HOL-Library.Word" "HOL-Library.Multiset"
begin

section \<open>Data model of go/vt/vtgate/discoverygateway.go\<close>

text \<open>
  Modelled from the spec: the enum \<open>topodatapb.TabletType\<close> is declared outside the files
  at hand. The spec has the roles PRIMARY, REPLICA and READ_ONLY; the gateway names them
  \<open>TabletType_MASTER\<close>, \<open>TabletType_REPLICA\<close> and \<open>TabletType_RDONLY\<close> and only compares
  values of the type. Every other member is \<open>OtherType n\<close>.
\<close>

datatype TabletType = MASTER | REPLICA | RDONLY | OtherType nat

text \<open>
  Modelled from the spec: the enum \<open>vtrpcpb.Code\<close> is declared outside the files at hand.
  These are the codes the gateway and the spec name, and \<open>OtherCode n\<close> for the rest.
\<close>

datatype Code = OK | UNAVAILABLE | FAILED_PRECONDITION | UNIMPLEMENTED | OtherCode nat

text \<open>Modelled from the spec: \<open>querypb.Target\<close> is declared outside the files at hand. It
  is the routing key (keyspace, shard, role) of the spec.\<close>

record Target =
  Keyspace :: string
  Shard :: string
  TabletType :: TabletType

text \<open>Modelled from the spec: \<open>topodatapb.TabletAlias\<close>, \<open>topodatapb.Tablet\<close> and
  \<open>discovery.LegacyTabletStats\<close> are declared outside the files at hand. A tablet is
  identified by (cell, uid) and carries its host name; the stats of a tablet carry its key,
  the tablet and its target. These are the fields the gateway reads.\<close>

record TabletAlias =
  Cell :: string
  Uid :: nat

record Tablet =
  Alias :: TabletAlias
  Hostname :: string

record LegacyTabletStats =
  Key :: string
  Tablet :: Tablet
  Target :: Target

text \<open>
  Modelled from the spec: the package \<open>vterrors\<close> is outside the files at hand; the spec
  names errors by their codes. \<open>Foreign e\<close> is an error value made outside this file (by
  the action or by the buffer); \<open>Errorf c fmt args\<close> is \<open>vterrors.Errorf(c, fmt, args...)\<close>,
  an error of code \<open>c\<close>, and \<open>vterrors.New(c, msg)\<close> is \<open>Errorf c msg []\<close>. The format
  string is kept unexpanded next to its arguments.
\<close>

datatype 'e error =
    Foreign 'e
  | Errorf Code string "'e arg list"
and 'e arg =
    ArgTabletType TabletType
  | ArgTabletTypes "TabletType list"
  | ArgForeign 'e
  | ArgErr "'e error option"
  | ArgTarget Target
  | ArgKey string
  | ArgTablet Tablet

text \<open>\<open>vterrors.Code\<close>: the code an error carries; \<open>ecode\<close> reads the code of a foreign
  error.\<close>

fun vterrors_Code :: "('e \<Rightarrow> Code) \<Rightarrow> 'e error \<Rightarrow> Code" where
  "vterrors_Code ecode (Foreign e) = ecode e"
| "vterrors_Code ecode (Errorf c fmt args) = c"

section \<open>shuffleTablets\<close>

text \<open>
  Slice indices are Go \<open>int\<close>s. They stay within \<open>-1 .. len(tablets)\<close>, so they are
  modelled as \<open>int\<close>; an index outside the slice panics, which is the value \<open>None\<close>.
\<close>

definition sameCellAs :: "string \<Rightarrow> LegacyTabletStats \<Rightarrow> bool" where
  "sameCellAs cell t = (Cell (Alias (Tablet t)) = cell)"

function nextTablet ::
  "string \<Rightarrow> LegacyTabletStats list \<Rightarrow> int \<Rightarrow> int \<Rightarrow> bool \<Rightarrow> int option" where
  "nextTablet cell tablets offset len sameCell =
     (if offset < len then
        (if 0 \<le> offset \<and> offset < int (length tablets) then
           (if (Cell (Alias (Tablet (tablets ! nat offset))) = cell) = sameCell
            then Some offset
            else nextTablet cell tablets (offset + 1) len sameCell)
         else None)
      else Some (- 1))"
  by pat_completeness auto
termination
  by (relation "measure (\<lambda>(cell, tablets, offset, len, sameCell). nat (len - offset))") auto

text \<open>\<open>tablets[i], tablets[j] = tablets[j], tablets[i]\<close>, with Go's bounds check.\<close>

definition swapAt :: "'a list \<Rightarrow> int \<Rightarrow> int \<Rightarrow> 'a list option" where
  "swapAt xs i j =
     (if 0 \<le> i \<and> i < int (length xs) \<and> 0 \<le> j \<and> j < int (length xs)
      then Some (xs[nat i := xs ! nat j, nat j := xs ! nat i])
      else None)"

text \<open>
  \<open>rand.Intn(n)\<close> panics for \<open>n \<le> 0\<close> and otherwise returns a number in \<open>[0, n)\<close>. The
  generator is a state transformer \<open>src\<close> on the world that yields a raw natural number;
  reducing it modulo \<open>n\<close> reaches every outcome of \<open>Intn\<close>.
\<close>

definition rand_Intn :: "('w \<Rightarrow> nat \<times> 'w) \<Rightarrow> int \<Rightarrow> 'w \<Rightarrow> (int \<times> 'w) option" where
  "rand_Intn src n w =
     (if n \<le> 0 then None
      else Some (int (fst (src w) mod nat n), snd (src w)))"

text \<open>
  The first loop of \<open>shuffleTablets\<close> (\<open>for { ... }\<close>) moves the same-cell tablets to the
  front. It is entered with \<open>sameCell = diffCell = 0\<close> and leaves the slice together with
  \<open>sameCellMax\<close>.
\<close>

function moveSameCell ::
  "string \<Rightarrow> LegacyTabletStats list \<Rightarrow> int \<Rightarrow> int \<Rightarrow> (LegacyTabletStats list \<times> int) option" where
  "moveSameCell cell tablets sameCell diffCell =
     (case nextTablet cell tablets sameCell (int (length tablets)) True of
        None \<Rightarrow> None
      | Some sameCell' \<Rightarrow>
          (case nextTablet cell tablets diffCell (int (length tablets)) False of
             None \<Rightarrow> None
           | Some diffCell' \<Rightarrow>
               if sameCell' < 0 \<or> diffCell' < 0 then Some (tablets, diffCell - 1)
               else if sameCell' < diffCell'
               then moveSameCell cell tablets (diffCell' + 1) diffCell'
               else (case swapAt tablets sameCell' diffCell' of
                       None \<Rightarrow> None
                     | Some tablets' \<Rightarrow>
                         moveSameCell cell tablets' (sameCell' + 1) (diffCell' + 1))))"
  by pat_completeness auto
termination
proof (relation "measure (\<lambda>(cell, tablets, sameCell, diffCell). nat (int (length tablets) - sameCell))")
  have found: "offset \<le> r \<and> r < len"
    if "nextTablet cell tablets offset len b = Some r" "0 \<le> r"
    for cell tablets offset len b r
    using that
  proof (induction cell tablets offset len b rule: nextTablet.induct)
    case (1 cell tablets offset len sameCell)
    then show ?case
      by (simp split: if_splits)
  qed
  show "wf (measure (\<lambda>(cell, tablets, sameCell, diffCell). nat (int (length tablets) - sameCell)))"
    by simp
  show "((cell, tablets, d' + 1, d'), (cell, tablets, sameCell, diffCell))
        \<in> measure (\<lambda>(cell, tablets, sameCell, diffCell). nat (int (length tablets) - sameCell))"
    if "nextTablet cell tablets sameCell (int (length tablets)) True = Some s'"
       "nextTablet cell tablets diffCell (int (length tablets)) False = Some d'"
       "\<not> (s' < 0 \<or> d' < 0)" "s' < d'"
    for cell tablets sameCell diffCell s' d'
    using found [OF that(1)] found [OF that(2)] that(3,4) by simp
  show "((cell, tablets', s' + 1, d' + 1), (cell, tablets, sameCell, diffCell))
        \<in> measure (\<lambda>(cell, tablets, sameCell, diffCell). nat (int (length tablets) - sameCell))"
    if "nextTablet cell tablets sameCell (int (length tablets)) True = Some s'"
       "nextTablet cell tablets diffCell (int (length tablets)) False = Some d'"
       "\<not> (s' < 0 \<or> d' < 0)" "swapAt tablets s' d' = Some tablets'"
    for cell tablets sameCell diffCell s' d' tablets'
  proof -
    have "length tablets' = length tablets"
      using that(4) by (auto simp: swapAt_def split: if_splits)
    then show ?thesis
      using found [OF that(1)] that(3) by simp
  qed
qed

text \<open>
  The second loop: \<open>for i := sameCellMax; i > 0; i-- { swap := rand.Intn(i + 1); ... }\<close>.
\<close>

function shuffleSameCell ::
  "('w \<Rightarrow> nat \<times> 'w) \<Rightarrow> LegacyTabletStats list \<Rightarrow> int \<Rightarrow> 'w \<Rightarrow> (LegacyTabletStats list \<times> 'w) option" where
  "shuffleSameCell src tablets i w =
     (if i > 0 then
        (case rand_Intn src (i + 1) w of
           None \<Rightarrow> None
         | Some (swap, w') \<Rightarrow>
             (case swapAt tablets i swap of
                None \<Rightarrow> None
              | Some tablets' \<Rightarrow> shuffleSameCell src tablets' (i - 1) w'))
      else Some (tablets, w))"
  by pat_completeness auto
termination
  by (relation "measure (\<lambda>(src, tablets, i, w). nat i)") auto

text \<open>
  The third loop:
  \<open>for i, diffCellMin := length-1, sameCellMax+1; i > diffCellMin; i-- {
     swap := rand.Intn(i-sameCellMax) + diffCellMin; ... }\<close>.
\<close>

function shuffleDiffCell ::
  "('w \<Rightarrow> nat \<times> 'w) \<Rightarrow> LegacyTabletStats list \<Rightarrow> int \<Rightarrow> int \<Rightarrow> int \<Rightarrow> 'w
   \<Rightarrow> (LegacyTabletStats list \<times> 'w) option" where
  "shuffleDiffCell src tablets sameCellMax diffCellMin i w =
     (if i > diffCellMin then
        (case rand_Intn src (i - sameCellMax) w of
           None \<Rightarrow> None
         | Some (r, w') \<Rightarrow>
             (case swapAt tablets i (r + diffCellMin) of
                None \<Rightarrow> None
              | Some tablets' \<Rightarrow> shuffleDiffCell src tablets' sameCellMax diffCellMin (i - 1) w'))
      else Some (tablets, w))"
  by pat_completeness auto
termination
  by (relation "measure (\<lambda>(src, tablets, sameCellMax, diffCellMin, i, w). nat (i - diffCellMin))") auto

text \<open>\<open>shuffleTablets(cell, tablets)\<close>: the slice is updated in place; the model returns
  it, with the world after the draws. \<open>None\<close> is a panic.\<close>

definition shuffleTablets ::
  "('w \<Rightarrow> nat \<times> 'w) \<Rightarrow> string \<Rightarrow> LegacyTabletStats list \<Rightarrow> 'w
   \<Rightarrow> (LegacyTabletStats list \<times> 'w) option" where
  "shuffleTablets src cell tablets w =
     (case moveSameCell cell tablets 0 0 of
        None \<Rightarrow> None
      | Some (tablets1, sameCellMax) \<Rightarrow>
          (case shuffleSameCell src tablets1 sameCellMax w of
             None \<Rightarrow> None
           | Some (tablets2, w2) \<Rightarrow>
               shuffleDiffCell src tablets2 sameCellMax (sameCellMax + 1)
                 (int (length tablets) - 1) w2))"

section \<open>The gateway and its collaborators\<close>

text \<open>
  The health check, the tablet stats cache, the failover buffer, the topology server, the
  random source and the action are outside the file. They are functions on a world \<open>'w\<close>:
  every call takes the world and returns its result with the world after the call, so that
  anything may change between two calls. \<open>'c\<close> is the type of connections
  (\<open>queryservice.QueryService\<close>) and \<open>'e\<close> the type of foreign errors.

  A call to a collaborator is also written to a log of events, in the order of the calls.
\<close>

datatype 'c event =
    EvWaitForFailoverEnd string string bool bool
  | EvGetHealthyTabletStats string string TabletType
  | EvTablets "LegacyTabletStats list"
  | EvGetConnection string
  | EvInner Target 'c bool
  | EvUpdateStats Target bool
  | EvRetryDone
  | EvTscStatsUpdate LegacyTabletStats
  | EvBufferStatsUpdate LegacyTabletStats
  | EvFindAllTargets string "TabletType list"
  | EvWaitForAllServingTablets "Target list"

text \<open>
  \<open>EvWaitForFailoverEnd keyspace shard buffered failed\<close>: the buffer was asked; \<open>buffered\<close>
  says that it returned a \<open>retryDone\<close> callback and \<open>failed\<close> that it returned an error.
  \<open>EvInner target conn canRetry\<close>: the action ran on \<open>conn\<close> and reported \<open>canRetry\<close>.
  \<open>EvTablets tablets\<close> is no call: it records the value of the variable \<open>tablets\<close> at
  line 300, when the snapshot of an attempt is complete.
\<close>

text \<open>The struct \<open>DiscoveryGateway\<close>. \<open>retryCount\<close> is a Go \<open>int\<close>, 64 bits wide.\<close>

record ('w, 'c, 'e) DiscoveryGateway =
  localCell :: string
  retryCount :: "64 word"
  hc_GetConnection :: "string \<Rightarrow> 'w \<Rightarrow> 'c option \<times> 'w"
  tsc_GetHealthyTabletStats ::
    "string \<Rightarrow> string \<Rightarrow> TabletType \<Rightarrow> 'w \<Rightarrow> LegacyTabletStats list \<times> 'w"
  tsc_StatsUpdate :: "LegacyTabletStats \<Rightarrow> 'w \<Rightarrow> 'w"
  tsc_WaitForAllServingTablets :: "Target list \<Rightarrow> 'w \<Rightarrow> 'e error option \<times> 'w"
  buffer_WaitForFailoverEnd ::
    "string \<Rightarrow> string \<Rightarrow> 'e error option \<Rightarrow> 'w \<Rightarrow> (('w \<Rightarrow> 'w) option \<times> 'e option) \<times> 'w"
  buffer_StatsUpdate :: "LegacyTabletStats \<Rightarrow> 'w \<Rightarrow> 'w"
  aggr_UpdateQueryInfo :: "Target \<Rightarrow> bool \<Rightarrow> 'w \<Rightarrow> 'w"

text \<open>
  Package-level variables and functions the gateway uses: the flag
  \<open>gateway_route_replica_to_rdonly\<close>, \<open>discovery.AllowedTabletTypes\<close>, the source behind
  \<open>rand.Intn\<close>, \<open>NewShardError\<close> (declared in another file of the package) and the code of a
  foreign error.
\<close>

record ('w, 'e) Package =
  routeReplicaToRdonly :: bool
  AllowedTabletTypes :: "TabletType list"
  rand_src :: "'w \<Rightarrow> nat \<times> 'w"
  NewShardError :: "'e error option \<Rightarrow> Target \<Rightarrow> 'e error option"
  foreignCode :: "'e \<Rightarrow> Code"

section \<open>withRetry\<close>

text \<open>The local variables of \<open>withRetry\<close> that live across iterations, the callbacks
  registered with \<open>defer\<close> (latest first), the world and the log.\<close>

record ('w, 'c, 'e) vars =
  err :: "'e error option"
  invalidTablets :: "string \<rightharpoonup> bool"
  bufferedOnce :: bool
  deferred :: "('w \<Rightarrow> 'w) list"
  world :: 'w
  calls :: "'c event list"

datatype flow = Continue | Break | Panic

text \<open>The five errors that \<open>withRetry\<close> makes, at lines 260, 276, 302, 318 and 326.\<close>

definition errNotAllowed :: "TabletType \<Rightarrow> TabletType list \<Rightarrow> 'e error" where
  "errNotAllowed ty allowed =
     Errorf FAILED_PRECONDITION
       ''requested tablet type %v is not part of the allowed tablet types for this vtgate: %+v''
       [ArgTabletType ty, ArgTabletTypes allowed]"

definition errBufferFailed :: "('e \<Rightarrow> Code) \<Rightarrow> 'e \<Rightarrow> 'e error option \<Rightarrow> 'e error" where
  "errBufferFailed ecode bufferErr e =
     Errorf (ecode bufferErr)
       ''failed to automatically buffer and retry failed request during failover: %v original err (type=%T): %v''
       [ArgForeign bufferErr, ArgErr e, ArgErr e]"

definition errNoHealthyTablet :: "Target \<Rightarrow> 'e error" where
  "errNoHealthyTablet target =
     Errorf UNAVAILABLE
       (''no healthy tablet available for '' @ [CHR 0x27] @ ''%s'' @ [CHR 0x27])
       [ArgTarget target]"

definition errNoAvailableConnection :: "'e error" where
  "errNoAvailableConnection = Errorf UNAVAILABLE ''no available connection'' []"

definition errNoConnection :: "string \<Rightarrow> Tablet \<Rightarrow> 'e error" where
  "errNoConnection key tablet =
     Errorf UNAVAILABLE ''no connection for key %v tablet %+v'' [ArgKey key, ArgTablet tablet]"

text \<open>Lines 251-262: the loop over \<open>discovery.AllowedTabletTypes\<close> that sets \<open>match\<close>.\<close>

fun allowedMatch :: "TabletType list \<Rightarrow> TabletType \<Rightarrow> bool" where
  "allowedMatch [] t = False"
| "allowedMatch (allowed # rest) t = (if allowed = t then True else allowedMatch rest t)"

text \<open>Lines 271-290: the buffer. The flag of the result says whether the loop is left
  (\<open>break\<close>).\<close>

definition bufferStep ::
  "('w, 'c, 'e) DiscoveryGateway \<Rightarrow> ('w, 'e) Package \<Rightarrow> Target \<Rightarrow> bool
   \<Rightarrow> ('w, 'c, 'e) vars \<Rightarrow> bool \<times> ('w, 'c, 'e) vars" where
  "bufferStep dg pkg target inTransaction s =
     (if \<not> bufferedOnce s \<and> \<not> inTransaction \<and> TabletType target = MASTER then
        (case buffer_WaitForFailoverEnd dg (Keyspace target) (Shard target) (err s) (world s) of
           ((retryDone, bufferErr), w') \<Rightarrow>
             (let s1 = s\<lparr>world := w',
                        calls := calls s @ [EvWaitForFailoverEnd (Keyspace target) (Shard target)
                                              (retryDone \<noteq> None) (bufferErr \<noteq> None)]\<rparr>
              in case bufferErr of
                   Some be \<Rightarrow>
                     (True, s1\<lparr>err := Some (errBufferFailed (foreignCode pkg) be (err s))\<rparr>)
                 | None \<Rightarrow>
                     (case retryDone of
                        Some rd \<Rightarrow> (False, s1\<lparr>deferred := rd # deferred s1, bufferedOnce := True\<rparr>)
                      | None \<Rightarrow> (False, s1))))
      else (False, s))"

text \<open>Lines 292-298: the snapshot of the healthy tablets, with the RDONLY tablets appended
  for a REPLICA target when the flag is set.\<close>

definition healthySnapshot ::
  "('w, 'c, 'e) DiscoveryGateway \<Rightarrow> ('w, 'e) Package \<Rightarrow> Target
   \<Rightarrow> ('w, 'c, 'e) vars \<Rightarrow> LegacyTabletStats list \<times> ('w, 'c, 'e) vars" where
  "healthySnapshot dg pkg target s =
     (case tsc_GetHealthyTabletStats dg (Keyspace target) (Shard target) (TabletType target) (world s) of
        (tablets, w1) \<Rightarrow>
          (let s1 = s\<lparr>world := w1,
                     calls := calls s @ [EvGetHealthyTabletStats (Keyspace target) (Shard target)
                                           (TabletType target)]\<rparr>
           in if routeReplicaToRdonly pkg \<and> TabletType target = REPLICA then
                (case tsc_GetHealthyTabletStats dg (Keyspace target) (Shard target) RDONLY (world s1) of
                   (rdonly, w2) \<Rightarrow>
                     (tablets @ rdonly,
                      s1\<lparr>world := w2,
                         calls := calls s1 @ [EvGetHealthyTabletStats (Keyspace target) (Shard target)
                                                RDONLY,
                                              EvTablets (tablets @ rdonly)]\<rparr>))
              else (tablets, s1\<lparr>calls := calls s1 @ [EvTablets tablets]\<rparr>)))"

text \<open>Lines 323-339: the connection of the chosen tablet and the action.\<close>

definition execute ::
  "('w, 'c, 'e) DiscoveryGateway \<Rightarrow> ('w, 'e) Package \<Rightarrow> Target
   \<Rightarrow> (Target \<Rightarrow> 'c \<Rightarrow> 'w \<Rightarrow> (bool \<times> 'e option) \<times> 'w)
   \<Rightarrow> LegacyTabletStats \<Rightarrow> ('w, 'c, 'e) vars \<Rightarrow> flow \<times> ('w, 'c, 'e) vars" where
  "execute dg pkg target inner ts s =
     (case hc_GetConnection dg (Key ts) (world s) of
        (conn, w1) \<Rightarrow>
          (let s1 = s\<lparr>world := w1, calls := calls s @ [EvGetConnection (Key ts)]\<rparr>
           in case conn of
                None \<Rightarrow>
                  (Continue,
                   s1\<lparr>err := Some (errNoConnection (Key ts) (Tablet ts)),
                      invalidTablets := (invalidTablets s1)(Key ts \<mapsto> True)\<rparr>)
              | Some c \<Rightarrow>
                  (case inner (Target ts) c (world s1) of
                     ((canRetry, e), w2) \<Rightarrow>
                       (let s2 = s1\<lparr>err := map_option Foreign e,
                                    world := aggr_UpdateQueryInfo dg target (e \<noteq> None) w2,
                                    calls := calls s1 @ [EvInner (Target ts) c canRetry,
                                                         EvUpdateStats target (e \<noteq> None)]\<rparr>
                        in if canRetry
                           then (Continue, s2\<lparr>invalidTablets := (invalidTablets s2)(Key ts \<mapsto> True)\<rparr>)
                           else (Break, s2)))))"

text \<open>One iteration of the loop of \<open>withRetry\<close> (lines 266-339).\<close>

definition attempt ::
  "('w, 'c, 'e) DiscoveryGateway \<Rightarrow> ('w, 'e) Package \<Rightarrow> Target \<Rightarrow> bool
   \<Rightarrow> (Target \<Rightarrow> 'c \<Rightarrow> 'w \<Rightarrow> (bool \<times> 'e option) \<times> 'w)
   \<Rightarrow> ('w, 'c, 'e) vars \<Rightarrow> flow \<times> ('w, 'c, 'e) vars" where
  "attempt dg pkg target inTransaction inner s =
     (case bufferStep dg pkg target inTransaction s of
        (True, s1) \<Rightarrow> (Break, s1)
      | (False, s1) \<Rightarrow>
          (case healthySnapshot dg pkg target s1 of
             (tablets, s2) \<Rightarrow>
               if length tablets = 0 then
                 (Break, s2\<lparr>err := Some (errNoHealthyTablet target)\<rparr>)
               else
                 (case shuffleTablets (rand_src pkg) (localCell dg) tablets (world s2) of
                    None \<Rightarrow> (Panic, s2)
                  | Some (shuffled, w3) \<Rightarrow>
                      (let s3 = s2\<lparr>world := w3\<rparr>
                       in case find (\<lambda>t. invalidTablets s3 (Key t) = None) shuffled of
                            None \<Rightarrow>
                              (Break,
                               if err s3 = None
                               then s3\<lparr>err := Some errNoAvailableConnection\<rparr>
                               else s3)
                          | Some ts \<Rightarrow> execute dg pkg target inner ts s3))))"

text \<open>
  \<open>for i := 0; i < dg.retryCount+1; i++\<close>. The sum \<open>dg.retryCount+1\<close> wraps around at 64
  bits and the comparison is signed. The result says whether the loop panicked.
\<close>

function withRetry_loop ::
  "('w, 'c, 'e) DiscoveryGateway \<Rightarrow> ('w, 'e) Package \<Rightarrow> Target \<Rightarrow> bool
   \<Rightarrow> (Target \<Rightarrow> 'c \<Rightarrow> 'w \<Rightarrow> (bool \<times> 'e option) \<times> 'w)
   \<Rightarrow> 64 word \<Rightarrow> ('w, 'c, 'e) vars \<Rightarrow> bool \<times> ('w, 'c, 'e) vars" where
  "withRetry_loop dg pkg target inTransaction inner i s =
     (if sint i < sint (retryCount dg + 1) then
        (case attempt dg pkg target inTransaction inner s of
           (Continue, s') \<Rightarrow> withRetry_loop dg pkg target inTransaction inner (i + 1) s'
         | (Break, s') \<Rightarrow> (False, s')
         | (Panic, s') \<Rightarrow> (True, s'))
      else (False, s))"
  by pat_completeness auto
termination
proof (relation "measure (\<lambda>(dg, pkg, target, inTransaction, inner, i, s).
                    nat (sint (retryCount dg + 1) - sint i))", goal_cases)
  case 1
  show ?case by simp
next
  case (2 dg pkg target inTransaction inner i s x y)
  have "sint (retryCount dg + 1) < 2 ^ 63"
    using sint_lt [of "retryCount dg + 1"] by simp
  moreover have "- (2 ^ 63) \<le> sint i"
    using sint_ge [of i] by simp
  ultimately have "sint (i + 1) = sint i + 1"
    using 2(1) by (simp add: sint_word_ariths signed_take_bit_int_eq_self)
  then show ?case
    using 2(1) by simp
qed

text \<open>The callbacks registered with \<open>defer\<close> run when the function is left, latest first.\<close>

fun runDeferred :: "('w \<Rightarrow> 'w) list \<Rightarrow> 'w \<Rightarrow> 'c event list \<Rightarrow> 'w \<times> 'c event list" where
  "runDeferred [] w log = (w, log)"
| "runDeferred (retryDone # rest) w log = runDeferred rest (retryDone w) (log @ [EvRetryDone])"

text \<open>What a call leaves behind: whether it panicked, the error it returned (if it did not
  panic), the world and the log.\<close>

record ('w, 'c, 'e) outcome =
  panicked :: bool
  returned :: "'e error option"
  world_after :: 'w
  log :: "'c event list"

text \<open>Lines 251-262: the check of the target's tablet type against
  \<open>discovery.AllowedTabletTypes\<close>; \<open>Some\<close> the error that \<open>withRetry\<close> returns at once.\<close>

definition checkAllowedTabletTypes :: "('w, 'e) Package \<Rightarrow> Target \<Rightarrow> 'e error option" where
  "checkAllowedTabletTypes pkg target =
     (if length (AllowedTabletTypes pkg) > 0
      then (if \<not> allowedMatch (AllowedTabletTypes pkg) (TabletType target)
            then Some (errNotAllowed (TabletType target) (AllowedTabletTypes pkg))
            else None)
      else None)"

text \<open>The variables before the loop (lines 248, 249 and 264): \<open>err\<close> is nil, no tablet is
  invalid, nothing was buffered, nothing is deferred.\<close>

definition initialVars :: "'w \<Rightarrow> ('w, 'c, 'e) vars" where
  "initialVars w =
     \<lparr>err = None, invalidTablets = Map.empty, bufferedOnce = False, deferred = [],
      world = w, calls = []\<rparr>"

text \<open>Lines 264-341: the loop from its first iteration, the deferred callbacks and
  \<open>return NewShardError(err, target)\<close>.\<close>

definition withRetry_attempts ::
  "('w, 'c, 'e) DiscoveryGateway \<Rightarrow> ('w, 'e) Package \<Rightarrow> Target \<Rightarrow> bool
   \<Rightarrow> (Target \<Rightarrow> 'c \<Rightarrow> 'w \<Rightarrow> (bool \<times> 'e option) \<times> 'w)
   \<Rightarrow> 'w \<Rightarrow> ('w, 'c, 'e) outcome" where
  "withRetry_attempts dg pkg target inTransaction inner w =
     (case withRetry_loop dg pkg target inTransaction inner 0 (initialVars w) of
        (p, s) \<Rightarrow>
          (case runDeferred (deferred s) (world s) (calls s) of
             (w', log') \<Rightarrow>
               \<lparr>panicked = p,
                returned = (if p then None else NewShardError pkg (err s) target),
                world_after = w', log = log'\<rparr>))"

definition withRetry ::
  "('w, 'c, 'e) DiscoveryGateway \<Rightarrow> ('w, 'e) Package \<Rightarrow> Target \<Rightarrow> bool
   \<Rightarrow> (Target \<Rightarrow> 'c \<Rightarrow> 'w \<Rightarrow> (bool \<times> 'e option) \<times> 'w)
   \<Rightarrow> 'w \<Rightarrow> ('w, 'c, 'e) outcome" where
  "withRetry dg pkg target inTransaction inner w =
     (case checkAllowedTabletTypes pkg target of
        Some e \<Rightarrow> \<lparr>panicked = False, returned = Some e, world_after = w, log = []\<rparr>
      | None \<Rightarrow> withRetry_attempts dg pkg target inTransaction inner w)"

section \<open>StatsUpdate and WaitForTablets\<close>

text \<open>\<open>StatsUpdate\<close> (lines 194-200), with the log of the calls it makes.\<close>

definition StatsUpdate ::
  "('w, 'c, 'e) DiscoveryGateway \<Rightarrow> LegacyTabletStats \<Rightarrow> 'w \<Rightarrow> 'w \<times> 'c event list" where
  "StatsUpdate dg ts w =
     (let w1 = tsc_StatsUpdate dg ts w
      in if TabletType (Target ts) = MASTER
         then (buffer_StatsUpdate dg ts w1, [EvTscStatsUpdate ts, EvBufferStatsUpdate ts])
         else (w1, [EvTscStatsUpdate ts]))"

text \<open>
  What \<open>WaitForTablets\<close> takes from outside the file: \<open>srvtopo.FindAllTargets\<close> on the
  gateway's topology server, \<open>discovery.FilterTargetsByKeyspaces\<close> and
  \<open>discovery.KeyspacesToWatch\<close>; and what \<open>NewDiscoveryGateway\<close> takes: the flag
  \<open>cells_to_watch\<close>, \<open>discovery.TabletFilters\<close> and the parser of the filters,
  \<open>discovery.NewLegacyFilterByShard\<close>, which returns an error or nothing.
\<close>

record ('w, 'e) Discovery =
  CellsToWatch :: string
  TabletFilters :: "string list"
  KeyspacesToWatch :: "string list"
  NewLegacyFilterByShard :: "string list \<Rightarrow> 'e option"
  FilterTargetsByKeyspaces :: "string list \<Rightarrow> Target list \<Rightarrow> Target list"
  srvtopo_FindAllTargets :: "string \<Rightarrow> TabletType list \<Rightarrow> 'w \<Rightarrow> (Target list \<times> 'e error option) \<times> 'w"

text \<open>\<open>WaitForTablets\<close> (lines 203-217): the error returned, the world and the log.\<close>

definition WaitForTablets ::
  "('w, 'c, 'e) DiscoveryGateway \<Rightarrow> ('w, 'e) Discovery \<Rightarrow> TabletType list \<Rightarrow> 'w
   \<Rightarrow> 'e error option \<times> 'w \<times> 'c event list" where
  "WaitForTablets dg disc tabletTypesToWait w =
     (if length tabletTypesToWait = 0 then (None, w, [])
      else
        (case srvtopo_FindAllTargets disc (localCell dg) tabletTypesToWait w of
           ((targets, e), w1) \<Rightarrow>
             (case e of
                Some e' \<Rightarrow> (Some e', w1, [EvFindAllTargets (localCell dg) tabletTypesToWait])
              | None \<Rightarrow>
                  (let filteredTargets = FilterTargetsByKeyspaces disc (KeyspacesToWatch disc) targets
                   in case tsc_WaitForAllServingTablets dg filteredTargets w1 of
                        (r, w2) \<Rightarrow>
                          (r, w2, [EvFindAllTargets (localCell dg) tabletTypesToWait,
                                   EvWaitForAllServingTablets filteredTargets])))))"

section \<open>NewDiscoveryGateway\<close>

text \<open>\<open>strings.Split(s, sep)\<close> for a separator of one character.\<close>

fun strings_Split :: "string \<Rightarrow> char \<Rightarrow> string list" where
  "strings_Split [] sep = [[]]"
| "strings_Split (x # xs) sep =
     (if x = sep then [] # strings_Split xs sep
      else (case strings_Split xs sep of
              [] \<Rightarrow> [[x]]
            | piece # pieces \<Rightarrow> (x # piece) # pieces))"

text \<open>
  Modelled from the spec: \<open>discovery.FilteringKeyspaces\<close> is declared outside the files at
  hand. The spec speaks of \<open>keyspaces_to_watch\<close> being non-empty.
\<close>

definition FilteringKeyspaces :: "('w, 'e) Discovery \<Rightarrow> bool" where
  "FilteringKeyspaces disc = (length (KeyspacesToWatch disc) > 0)"

text \<open>The recorder a watcher writes to, and a watcher of one cell.\<close>

datatype recorder =
    HealthCheck
  | LegacyFilterByShard "string list"
  | LegacyFilterByKeyspace "string list"

record watcher =
  watched_cell :: string
  watcher_recorder :: recorder

text \<open>\<open>log.Exitf\<close> ends the process; \<open>Exitf msg\<close> is that end, and \<open>Created\<close> the
  gateway returned, with its watchers in the order of their creation.\<close>

datatype created =
    Exitf string
  | Created string "64 word" "watcher list"

text \<open>The loop over the cells (lines 128-149); \<open>ws\<close> is \<open>dg.tabletsWatchers\<close>.\<close>

fun watchCells :: "('w, 'e) Discovery \<Rightarrow> string list \<Rightarrow> watcher list \<Rightarrow> string + watcher list" where
  "watchCells disc [] ws = Inr ws"
| "watchCells disc (c # cs) ws =
     (if c = [] then watchCells disc cs ws
      else if length (TabletFilters disc) > 0 then
        (if FilteringKeyspaces disc
         then Inl ''Only one of -keyspaces_to_watch and -tablet_filters may be specified at a time''
         else (case NewLegacyFilterByShard disc (TabletFilters disc) of
                 Some e \<Rightarrow> Inl ''Cannot parse tablet_filters parameter: %v''
               | None \<Rightarrow>
                   watchCells disc cs
                     (ws @ [\<lparr>watched_cell = c,
                             watcher_recorder = LegacyFilterByShard (TabletFilters disc)\<rparr>])))
      else if FilteringKeyspaces disc then
        watchCells disc cs
          (ws @ [\<lparr>watched_cell = c,
                  watcher_recorder = LegacyFilterByKeyspace (KeyspacesToWatch disc)\<rparr>])
      else watchCells disc cs (ws @ [\<lparr>watched_cell = c, watcher_recorder = HealthCheck\<rparr>]))"

text \<open>
  \<open>NewDiscoveryGateway(ctx, hc, serv, cell, retryCount)\<close>; the parameter \<open>retryCount\<close> is
  \<open>retries\<close> here, as the field has the name. \<open>serv\<close> is \<open>None\<close> for a nil
  server and otherwise what \<open>serv.GetTopoServer()\<close> returns: \<open>Inl\<close> an error or \<open>Inr\<close> the
  topology server. The result is the end of the process or the gateway with its cell, its
  retry count and its watchers; setting the listener of the health check and starting the
  watchers are left out.
\<close>

definition NewDiscoveryGateway ::
  "('w, 'e) Discovery \<Rightarrow> ('e + 't) option \<Rightarrow> string \<Rightarrow> 64 word \<Rightarrow> created" where
  "NewDiscoveryGateway disc serv cell retries =
     (case serv of
        Some (Inl e) \<Rightarrow> Exitf ''Unable to create new discoverygateway: %v''
      | _ \<Rightarrow>
          (case watchCells disc (strings_Split (CellsToWatch disc) (CHR '','')) [] of
             Inl msg \<Rightarrow> Exitf msg
           | Inr ws \<Rightarrow> Created cell retries ws))"

section \<open>Reading the log\<close>

fun isInner :: "'c event \<Rightarrow> bool" where
  "isInner (EvInner target conn canRetry) = True"
| "isInner ev = False"

fun isWait :: "'c event \<Rightarrow> bool" where
  "isWait (EvWaitForFailoverEnd keyspace shard buffered failed) = True"
| "isWait ev = False"

fun isBuffered :: "'c event \<Rightarrow> bool" where
  "isBuffered (EvWaitForFailoverEnd keyspace shard buffered failed) = buffered"
| "isBuffered ev = False"

fun isTablets :: "'c event \<Rightarrow> bool" where
  "isTablets (EvTablets tablets) = True"
| "isTablets ev = False"

text \<open>After an event that says the request was buffered, the buffer is not asked again.\<close>

fun waitsOk :: "'c event list \<Rightarrow> bool" where
  "waitsOk [] = True"
| "waitsOk (ev # rest) = ((isBuffered ev \<longrightarrow> (\<forall>e \<in> set rest. \<not> isWait e)) \<and> waitsOk rest)"

section \<open>Scenarios\<close>

text \<open>
  Concrete collaborators for the scenarios: the world is a counter that the random source
  advances, a connection is the key of its tablet, a foreign error is a code with a text.
\<close>

definition tabletIn :: "string \<Rightarrow> string \<Rightarrow> TabletType \<Rightarrow> LegacyTabletStats" where
  "tabletIn cell key ty =
     \<lparr>Key = key,
      Tablet = \<lparr>Alias = \<lparr>Cell = cell, Uid = 0\<rparr>, Hostname = key\<rparr>,
      Target = \<lparr>Keyspace = ''ks'', Shard = ''0'', TabletType = ty\<rparr>\<rparr>"

definition targetOf :: "TabletType \<Rightarrow> Target" where
  "targetOf ty = \<lparr>Keyspace = ''ks'', Shard = ''0'', TabletType = ty\<rparr>"

text \<open>A gateway in cell \<open>a\<close> whose cache holds the given masters, replicas and read-only
  tablets, whose health check has a connection for every key, and whose buffer answers
  \<open>buf\<close>.\<close>

definition gatewayWith ::
  "64 word \<Rightarrow> LegacyTabletStats list \<Rightarrow> LegacyTabletStats list \<Rightarrow> LegacyTabletStats list
   \<Rightarrow> ((nat \<Rightarrow> nat) option \<times> (Code \<times> string) option)
   \<Rightarrow> (nat, string, Code \<times> string) DiscoveryGateway" where
  "gatewayWith retries masters replicas rdonlys buf =
     \<lparr>localCell = ''a'',
      retryCount = retries,
      hc_GetConnection = (\<lambda>key w. (Some key, w)),
      tsc_GetHealthyTabletStats =
        (\<lambda>keyspace shard ty w.
           (if ty = MASTER then masters else if ty = REPLICA then replicas
            else if ty = RDONLY then rdonlys else [], w)),
      tsc_StatsUpdate = (\<lambda>ts w. w),
      tsc_WaitForAllServingTablets = (\<lambda>targets w. (None, w)),
      buffer_WaitForFailoverEnd = (\<lambda>keyspace shard e w. (buf, w)),
      buffer_StatsUpdate = (\<lambda>ts w. w),
      aggr_UpdateQueryInfo = (\<lambda>target failed w. w)\<rparr>"

text \<open>Modelled from the spec: \<open>NewShardError\<close> is declared in a file of the package that
  is not at hand. The spec says that the final error is wrapped with the target metadata
  (keyspace, shard, role) before it is returned; in the scenarios \<open>NewShardError\<close> keeps nil
  and wraps an error with the target, keeping its code.\<close>

definition packageWith :: "bool \<Rightarrow> TabletType list \<Rightarrow> (nat, Code \<times> string) Package" where
  "packageWith flag allowed =
     \<lparr>routeReplicaToRdonly = flag,
      AllowedTabletTypes = allowed,
      rand_src = (\<lambda>w. (w, Suc w)),
      NewShardError =
        (\<lambda>e target. case e of
            None \<Rightarrow> None
          | Some e' \<Rightarrow> Some (Errorf (vterrors_Code fst e') ''target: %s.%s.%s''
                               [ArgErr (Some e'), ArgTarget target])),
      foreignCode = fst\<rparr>"

text \<open>Two actions: one that always asks for a retry with an ABORTED error (code 10), one
  that succeeds.\<close>

definition alwaysRetry :: "Target \<Rightarrow> string \<Rightarrow> nat \<Rightarrow> (bool \<times> (Code \<times> string) option) \<times> nat" where
  "alwaysRetry target conn w = ((True, Some (OtherCode 10, ''aborted'')), w)"

definition succeed :: "Target \<Rightarrow> string \<Rightarrow> nat \<Rightarrow> (bool \<times> (Code \<times> string) option) \<times> nat" where
  "succeed target conn w = ((False, None), w)"

definition threeReplicas :: "LegacyTabletStats list" where
  "threeReplicas =
     [tabletIn ''b'' ''r1'' REPLICA, tabletIn ''a'' ''r2'' REPLICA, tabletIn ''a'' ''r3'' REPLICA]"

definition twoRdonlys :: "LegacyTabletStats list" where
  "twoRdonlys = [tabletIn ''a'' ''ro1'' RDONLY, tabletIn ''b'' ''ro2'' RDONLY]"

definition discoveryWith :: "string \<Rightarrow> string list \<Rightarrow> string list \<Rightarrow> (nat, Code \<times> string) Discovery" where
  "discoveryWith cells filters keyspaces =
     \<lparr>CellsToWatch = cells,
      TabletFilters = filters,
      KeyspacesToWatch = keyspaces,
      NewLegacyFilterByShard = (\<lambda>fs. None),
      FilterTargetsByKeyspaces = (\<lambda>ks targets. targets),
      srvtopo_FindAllTargets = (\<lambda>cell types w. (([], None), w))\<rparr>"

definition oneMaster :: "LegacyTabletStats list" where
  "oneMaster = [tabletIn ''a'' ''m1'' MASTER]"

definition afterThreeRetries :: "(nat, string, Code \<times> string) vars" where
  "afterThreeRetries =
     \<lparr>err = Some (Foreign (OtherCode 10, ''aborted'')),
      invalidTablets = [''r1'' \<mapsto> True, ''r2'' \<mapsto> True, ''r3'' \<mapsto> True],
      bufferedOnce = False, deferred = [], world = 0, calls = []\<rparr>"

section \<open>Properties\<close>

declare nextTablet.simps [simp del] moveSameCell.simps [simp del]
  shuffleSameCell.simps [simp del] shuffleDiffCell.simps [simp del]
  withRetry_loop.simps [simp del]

text \<open>The equations that evaluate the model on a scenario.\<close>

lemmas scenario_simps = withRetry_def checkAllowedTabletTypes_def withRetry_attempts_def initialVars_def
  withRetry_loop.simps attempt_def bufferStep_def healthySnapshot_def execute_def shuffleTablets_def
  moveSameCell.simps nextTablet.simps swapAt_def shuffleSameCell.simps shuffleDiffCell.simps rand_Intn_def
  gatewayWith_def packageWith_def targetOf_def tabletIn_def alwaysRetry_def succeed_def
  threeReplicas_def twoRdonlys_def

subsection \<open>The log of an attempt and of the loop\<close>

lemma sint_succ:
  fixes i b :: "64 word"
  assumes "sint i < sint b"
  shows "sint (i + 1) = sint i + 1"
proof -
  have "sint b < 2 ^ 63"
    using sint_lt [of b] by simp
  moreover have "- (2 ^ 63) \<le> sint i"
    using sint_ge [of i] by simp
  ultimately show ?thesis
    using assms by (simp add: sint_word_ariths signed_take_bit_int_eq_self)
qed

lemma bufferStep_log:
  assumes "bufferStep dg pkg target inTransaction s = (b, s1)"
  shows "\<exists>W. calls s1 = calls s @ W
          \<and> (\<forall>ev \<in> set W. isWait ev) \<and> length W \<le> 1
          \<and> (W \<noteq> [] \<longrightarrow> \<not> bufferedOnce s \<and> \<not> inTransaction \<and> TabletType target = MASTER)
          \<and> ((\<exists>ev \<in> set W. isBuffered ev) \<longrightarrow> bufferedOnce s1 \<or> b)
          \<and> (bufferedOnce s \<longrightarrow> bufferedOnce s1)
          \<and> invalidTablets s1 = invalidTablets s \<and> (\<not> b \<longrightarrow> err s1 = err s)"
  using assms
  by (auto simp: bufferStep_def Let_def split: if_splits prod.splits option.splits)

lemma healthySnapshot_log:
  assumes "healthySnapshot dg pkg target s = (tablets, s1)"
  shows "\<exists>g. calls s1 = calls s @ g @ [EvTablets tablets]
          \<and> (\<forall>ev \<in> set g. \<not> isInner ev \<and> \<not> isWait ev \<and> \<not> isTablets ev)
          \<and> invalidTablets s1 = invalidTablets s \<and> err s1 = err s \<and> bufferedOnce s1 = bufferedOnce s
          \<and> deferred s1 = deferred s"
  using assms
  by (auto simp: healthySnapshot_def Let_def split: if_splits prod.splits option.splits)

lemma execute_log:
  assumes "execute dg pkg target inner ts s = (f, s1)"
  shows "\<exists>T. calls s1 = calls s @ EvGetConnection (Key ts) # T \<and> length (filter isInner T) \<le> 1
          \<and> (\<forall>ev \<in> set T. \<not> isWait ev \<and> \<not> isTablets ev)
          \<and> bufferedOnce s1 = bufferedOnce s \<and> deferred s1 = deferred s \<and> f \<noteq> Panic"
  using assms
  by (auto simp: execute_def Let_def split: if_splits prod.splits option.splits)

lemma attempt_cases [consumes 1, case_names BufferFailed NoTablet ShufflePanic NoCandidate Executed]:
  assumes "attempt dg pkg target inTransaction inner s = (f, s')"
  obtains
    (BufferFailed) "bufferStep dg pkg target inTransaction s = (True, s')" "f = Break"
  | (NoTablet) s1 s2 where
      "bufferStep dg pkg target inTransaction s = (False, s1)"
      "healthySnapshot dg pkg target s1 = ([], s2)"
      "f = Break"
      "s' = s2\<lparr>err := Some (errNoHealthyTablet target)\<rparr>"
  | (ShufflePanic) s1 tablets where
      "bufferStep dg pkg target inTransaction s = (False, s1)"
      "healthySnapshot dg pkg target s1 = (tablets, s')"
      "tablets \<noteq> []"
      "shuffleTablets (rand_src pkg) (localCell dg) tablets (world s') = None"
      "f = Panic"
  | (NoCandidate) s1 s2 tablets shuffled w3 where
      "bufferStep dg pkg target inTransaction s = (False, s1)"
      "healthySnapshot dg pkg target s1 = (tablets, s2)"
      "tablets \<noteq> []"
      "shuffleTablets (rand_src pkg) (localCell dg) tablets (world s2) = Some (shuffled, w3)"
      "find (\<lambda>t. invalidTablets s2 (Key t) = None) shuffled = None"
      "f = Break"
      "s' = (if err s2 = None
             then s2\<lparr>world := w3, err := Some errNoAvailableConnection\<rparr>
             else s2\<lparr>world := w3\<rparr>)"
  | (Executed) s1 s2 tablets shuffled w3 ts where
      "bufferStep dg pkg target inTransaction s = (False, s1)"
      "healthySnapshot dg pkg target s1 = (tablets, s2)"
      "tablets \<noteq> []"
      "shuffleTablets (rand_src pkg) (localCell dg) tablets (world s2) = Some (shuffled, w3)"
      "find (\<lambda>t. invalidTablets s2 (Key t) = None) shuffled = Some ts"
      "execute dg pkg target inner ts (s2\<lparr>world := w3\<rparr>) = (f, s')"
proof -
  obtain b s1 where b: "bufferStep dg pkg target inTransaction s = (b, s1)"
    by (cases "bufferStep dg pkg target inTransaction s")
  show thesis
  proof (cases b)
    case True
    with assms b BufferFailed show thesis
      by (simp add: attempt_def)
  next
    case False
    obtain tablets s2 where h: "healthySnapshot dg pkg target s1 = (tablets, s2)"
      by (cases "healthySnapshot dg pkg target s1")
    show thesis
    proof (cases "tablets = []")
      case True
      with assms b False h NoTablet show thesis
        by (simp add: attempt_def)
    next
      case ne: False
      show thesis
      proof (cases "shuffleTablets (rand_src pkg) (localCell dg) tablets (world s2)")
        case None
        with assms b False h ne ShufflePanic show thesis
          by (simp add: attempt_def)
      next
        case (Some r)
        obtain shuffled w3 where r: "r = (shuffled, w3)"
          by (cases r)
        show thesis
        proof (cases "find (\<lambda>t. invalidTablets s2 (Key t) = None) shuffled")
          case None
          with assms b False h ne Some r NoCandidate [of s1 tablets s2 shuffled w3] show thesis
            by (simp add: attempt_def Let_def split: if_splits)
        next
          case (Some ts)
          with assms b False h ne \<open>shuffleTablets (rand_src pkg) (localCell dg) tablets (world s2) = Some r\<close>
            r Executed [of s1 tablets s2 shuffled w3 ts] show thesis
            by (simp add: attempt_def Let_def)
        qed
      qed
    qed
  qed
qed

lemma attempt_log:
  assumes "attempt dg pkg target inTransaction inner s = (f, s')"
  shows "\<exists>W S T. calls s' = calls s @ W @ S @ T
          \<and> (\<forall>ev \<in> set W. isWait ev) \<and> length W \<le> 1
          \<and> (W \<noteq> [] \<longrightarrow> \<not> bufferedOnce s \<and> \<not> inTransaction \<and> TabletType target = MASTER)
          \<and> ((\<exists>ev \<in> set W. isBuffered ev) \<longrightarrow> bufferedOnce s' \<or> f = Break)
          \<and> (bufferedOnce s \<longrightarrow> bufferedOnce s')
          \<and> (\<forall>ev \<in> set S. \<not> isWait ev \<and> \<not> isInner ev)
          \<and> (S = [] \<or> isTablets (last S) \<and> (\<forall>ev \<in> set (butlast S). \<not> isTablets ev))
          \<and> (EvTablets [] \<in> set S \<longrightarrow> T = [] \<and> f = Break \<and> err s' = Some (errNoHealthyTablet target))
          \<and> (\<forall>ev \<in> set T. \<not> isWait ev \<and> \<not> isTablets ev)
          \<and> length (filter isInner T) \<le> 1
          \<and> (S = [] \<longrightarrow> T = []) \<and> (f = Continue \<longrightarrow> S \<noteq> [])"
  using assms
proof (cases rule: attempt_cases)
  case BufferFailed
  from bufferStep_log [OF BufferFailed(1)] obtain W where W: "calls s' = calls s @ W"
    "\<forall>ev \<in> set W. isWait ev" "length W \<le> 1"
    "W \<noteq> [] \<longrightarrow> \<not> bufferedOnce s \<and> \<not> inTransaction \<and> TabletType target = MASTER"
    "bufferedOnce s \<longrightarrow> bufferedOnce s'"
    by blast
  show ?thesis
    apply (rule exI [of _ W], rule exI [of _ "[]"], rule exI [of _ "[]"])
    using W BufferFailed(2) apply simp
    apply force?
    done
next
  case (NoTablet s1 s2)
  from bufferStep_log [OF NoTablet(1)] obtain W where W: "calls s1 = calls s @ W"
    "\<forall>ev \<in> set W. isWait ev" "length W \<le> 1"
    "W \<noteq> [] \<longrightarrow> \<not> bufferedOnce s \<and> \<not> inTransaction \<and> TabletType target = MASTER"
    "(\<exists>ev \<in> set W. isBuffered ev) \<longrightarrow> bufferedOnce s1 \<or> False"
    "bufferedOnce s \<longrightarrow> bufferedOnce s1"
    by blast
  from healthySnapshot_log [OF NoTablet(2)] obtain g where g: "calls s2 = calls s1 @ g @ [EvTablets []]"
    "\<forall>ev \<in> set g. \<not> isInner ev \<and> \<not> isWait ev \<and> \<not> isTablets ev" "bufferedOnce s2 = bufferedOnce s1"
    by blast
  show ?thesis
    apply (rule exI [of _ W], rule exI [of _ "g @ [EvTablets []]"], rule exI [of _ "[]"])
    using W g NoTablet(3,4) apply simp
    apply force?
    done
next
  case (ShufflePanic s1 tablets)
  from bufferStep_log [OF ShufflePanic(1)] obtain W where W: "calls s1 = calls s @ W"
    "\<forall>ev \<in> set W. isWait ev" "length W \<le> 1"
    "W \<noteq> [] \<longrightarrow> \<not> bufferedOnce s \<and> \<not> inTransaction \<and> TabletType target = MASTER"
    "(\<exists>ev \<in> set W. isBuffered ev) \<longrightarrow> bufferedOnce s1 \<or> False"
    "bufferedOnce s \<longrightarrow> bufferedOnce s1"
    by blast
  from healthySnapshot_log [OF ShufflePanic(2)] obtain g where g: "calls s' = calls s1 @ g @ [EvTablets tablets]"
    "\<forall>ev \<in> set g. \<not> isInner ev \<and> \<not> isWait ev \<and> \<not> isTablets ev" "bufferedOnce s' = bufferedOnce s1"
    by blast
  show ?thesis
    apply (rule exI [of _ W], rule exI [of _ "g @ [EvTablets tablets]"], rule exI [of _ "[]"])
    using W g ShufflePanic(3,5) apply simp
    apply force?
    done
next
  case (NoCandidate s1 s2 tablets shuffled w3)
  from bufferStep_log [OF NoCandidate(1)] obtain W where W: "calls s1 = calls s @ W"
    "\<forall>ev \<in> set W. isWait ev" "length W \<le> 1"
    "W \<noteq> [] \<longrightarrow> \<not> bufferedOnce s \<and> \<not> inTransaction \<and> TabletType target = MASTER"
    "(\<exists>ev \<in> set W. isBuffered ev) \<longrightarrow> bufferedOnce s1 \<or> False"
    "bufferedOnce s \<longrightarrow> bufferedOnce s1"
    by blast
  from healthySnapshot_log [OF NoCandidate(2)] obtain g where g: "calls s2 = calls s1 @ g @ [EvTablets tablets]"
    "\<forall>ev \<in> set g. \<not> isInner ev \<and> \<not> isWait ev \<and> \<not> isTablets ev" "bufferedOnce s2 = bufferedOnce s1"
    by blast
  show ?thesis
    apply (rule exI [of _ W], rule exI [of _ "g @ [EvTablets tablets]"], rule exI [of _ "[]"])
    using W g NoCandidate(3,6,7) apply simp
    apply force?
    done
next
  case (Executed s1 s2 tablets shuffled w3 ts)
  from bufferStep_log [OF Executed(1)] obtain W where W: "calls s1 = calls s @ W"
    "\<forall>ev \<in> set W. isWait ev" "length W \<le> 1"
    "W \<noteq> [] \<longrightarrow> \<not> bufferedOnce s \<and> \<not> inTransaction \<and> TabletType target = MASTER"
    "(\<exists>ev \<in> set W. isBuffered ev) \<longrightarrow> bufferedOnce s1 \<or> False"
    "bufferedOnce s \<longrightarrow> bufferedOnce s1"
    by blast
  from healthySnapshot_log [OF Executed(2)] obtain g where g: "calls s2 = calls s1 @ g @ [EvTablets tablets]"
    "\<forall>ev \<in> set g. \<not> isInner ev \<and> \<not> isWait ev \<and> \<not> isTablets ev" "bufferedOnce s2 = bufferedOnce s1"
    by blast
  from execute_log [OF Executed(6)] obtain T where T:
    "calls s' = calls (s2\<lparr>world := w3\<rparr>) @ EvGetConnection (Key ts) # T" "length (filter isInner T) \<le> 1"
    "\<forall>ev \<in> set T. \<not> isWait ev \<and> \<not> isTablets ev" "bufferedOnce s' = bufferedOnce (s2\<lparr>world := w3\<rparr>)"
    by blast
  show ?thesis
    apply (rule exI [of _ W], rule exI [of _ "g @ [EvTablets tablets]"], rule exI [of _ "EvGetConnection (Key ts) # T"])
    using W g T Executed(3) apply simp
    apply force?
    done
qed

lemma isWait_other: "isWait ev \<Longrightarrow> \<not> isInner ev \<and> \<not> isTablets ev"
  by (cases ev) auto

lemma isBuffered_isWait: "isBuffered ev \<Longrightarrow> isWait ev"
  by (cases ev) auto

lemma withRetry_loop_rule:
  assumes stop: "\<And>i s. \<not> sint i < sint (retryCount dg + 1) \<Longrightarrow> P i s (False, s)"
    and leave: "\<And>i s f s'. sint i < sint (retryCount dg + 1)
                  \<Longrightarrow> attempt dg pkg target inTransaction inner s = (f, s') \<Longrightarrow> f \<noteq> Continue
                  \<Longrightarrow> P i s (f = Panic, s')"
    and continue: "\<And>i s s1 r. sint i < sint (retryCount dg + 1)
                  \<Longrightarrow> attempt dg pkg target inTransaction inner s = (Continue, s1)
                  \<Longrightarrow> P (i + 1) s1 r \<Longrightarrow> P i s r"
  shows "P i s (withRetry_loop dg pkg target inTransaction inner i s)"
proof (induction "nat (sint (retryCount dg + 1) - sint i)" arbitrary: i s rule: less_induct)
  case less
  show ?case
  proof (cases "sint i < sint (retryCount dg + 1)")
    case False
    then show ?thesis
      using stop [of i s] by (simp add: withRetry_loop.simps [of dg pkg target inTransaction inner i s])
  next
    case True
    obtain f s1 where a: "attempt dg pkg target inTransaction inner s = (f, s1)"
      by (cases "attempt dg pkg target inTransaction inner s")
    show ?thesis
    proof (cases "f = Continue")
      case c: True
      have "sint (i + 1) = sint i + 1"
        using True by (rule sint_succ)
      then have "P (i + 1) s1 (withRetry_loop dg pkg target inTransaction inner (i + 1) s1)"
        using True by (intro less) simp
      then have "P i s (withRetry_loop dg pkg target inTransaction inner (i + 1) s1)"
        using continue [OF True] a c by simp
      then show ?thesis
        using True a c by (simp add: withRetry_loop.simps [of dg pkg target inTransaction inner i s])
    next
      case False
      then have "withRetry_loop dg pkg target inTransaction inner i s = (f = Panic, s1)"
        using True a by (cases f) (simp_all add: withRetry_loop.simps [of dg pkg target inTransaction inner i s])
      then show ?thesis
        using leave [OF True a False] by simp
    qed
  qed
qed

lemma loop_inner_count:
  "\<exists>added. calls (snd (withRetry_loop dg pkg target inTransaction inner i s)) = calls s @ added
     \<and> length (filter isInner added) \<le> nat (sint (retryCount dg + 1) - sint i)"
proof (rule withRetry_loop_rule, goal_cases)
  case (1 i s)
  then show ?case by simp
next
  case (2 i s f s')
  from attempt_log [OF 2(2)] obtain W S T where "calls s' = calls s @ W @ S @ T"
    "\<forall>ev \<in> set W. isWait ev" "\<forall>ev \<in> set S. \<not> isWait ev \<and> \<not> isInner ev"
    "length (filter isInner T) \<le> 1"
    by blast
  moreover have "filter isInner W = []"
    using calculation(2) by (auto simp: filter_empty_conv dest: isWait_other)
  moreover have "filter isInner S = []"
    using calculation(3) by (auto simp: filter_empty_conv)
  ultimately show ?case
    using 2(1) by (intro exI [of _ "W @ S @ T"]) simp
next
  case (3 i s s1 r)
  from attempt_log [OF 3(2)] obtain W S T where "calls s1 = calls s @ W @ S @ T"
    "\<forall>ev \<in> set W. isWait ev" "\<forall>ev \<in> set S. \<not> isWait ev \<and> \<not> isInner ev"
    "length (filter isInner T) \<le> 1"
    by blast
  moreover have "filter isInner W = []"
    using calculation(2) by (auto simp: filter_empty_conv dest: isWait_other)
  moreover have "filter isInner S = []"
    using calculation(3) by (auto simp: filter_empty_conv)
  moreover from 3(3) obtain added where "calls (snd r) = calls s1 @ added"
    "length (filter isInner added) \<le> nat (sint (retryCount dg + 1) - sint (i + 1))"
    by blast
  moreover have "sint (i + 1) = sint i + 1"
    using 3(1) by (rule sint_succ)
  ultimately show ?case
    using 3(1) by (intro exI [of _ "W @ S @ T @ added"]) simp
qed

lemma runDeferred_log: "snd (runDeferred ds w lg) = lg @ replicate (length ds) EvRetryDone"
  by (induction ds arbitrary: w lg) (simp_all add: replicate_app_Cons_same)

lemma withRetry_attempts_log:
  "log (withRetry_attempts dg pkg target inTransaction inner w)
     = calls (snd (withRetry_loop dg pkg target inTransaction inner 0 (initialVars w)))
       @ replicate (length (deferred (snd (withRetry_loop dg pkg target inTransaction inner 0
                                              (initialVars w))))) EvRetryDone"
proof -
  obtain p s where l: "withRetry_loop dg pkg target inTransaction inner 0 (initialVars w) = (p, s)"
    by (cases "withRetry_loop dg pkg target inTransaction inner 0 (initialVars w)")
  obtain w' lg where r: "runDeferred (deferred s) (world s) (calls s) = (w', lg)"
    by (cases "runDeferred (deferred s) (world s) (calls s)")
  have "lg = calls s @ replicate (length (deferred s)) EvRetryDone"
    using runDeferred_log [of "deferred s" "world s" "calls s"] r by simp
  then show ?thesis
    using l r by (simp add: withRetry_attempts_def)
qed

lemma sint_plus_one_le:
  fixes x :: "64 word"
  shows "sint (x + 1) \<le> sint x + 1"
proof (cases "sint x + 1 < 2 ^ 63")
  case True
  moreover have "- (2 ^ 63) \<le> sint x"
    using sint_ge [of x] by simp
  ultimately have "sint (x + 1) = sint x + 1"
    by (simp add: sint_word_ariths signed_take_bit_int_eq_self)
  then show ?thesis by simp
next
  case False
  moreover have "sint (x + 1) < 2 ^ 63"
    using sint_lt [of "x + 1"] by simp
  ultimately show ?thesis by simp
qed

lemma withRetry_inner_count:
  fixes dg :: "('w, 'c, 'e) DiscoveryGateway"
  shows "length (filter isInner (log (withRetry dg pkg target inTransaction inner w)))
     \<le> nat (sint (retryCount dg + 1))"
proof (cases "checkAllowedTabletTypes pkg target")
  case (Some e)
  then show ?thesis by (simp add: withRetry_def)
next
  case None
  obtain added where
    "calls (snd (withRetry_loop dg pkg target inTransaction inner 0 (initialVars w)))
       = calls (initialVars w :: ('w, 'c, 'e) vars) @ added"
    "length (filter isInner added) \<le> nat (sint (retryCount dg + 1) - sint (0 :: 64 word))"
    using loop_inner_count [of dg pkg target inTransaction inner 0 "initialVars w"] by blast
  then show ?thesis
    using None by (simp add: withRetry_def withRetry_attempts_log initialVars_def)
qed

subsection \<open>The allowed tablet types\<close>

lemma allowedMatch_iff: "allowedMatch allowed t \<longleftrightarrow> t \<in> set allowed"
  by (induction allowed) auto

text \<open>
  C7. If \<open>discovery.AllowedTabletTypes\<close> is not empty and does not hold the target's tablet
  type, \<open>withRetry\<close> returns a FAILED_PRECONDITION error, with no call to the buffer, the
  stats cache or the action (the log is empty) and the world as it was. If the list is empty
  the check returns no error for any tablet type, and \<open>withRetry\<close> goes on to its attempts.
\<close>

theorem C7_allowed_tablet_types:
  "(AllowedTabletTypes pkg \<noteq> [] \<and> TabletType target \<notin> set (AllowedTabletTypes pkg) \<longrightarrow>
      (\<exists>e. withRetry dg pkg target inTransaction inner w
            = \<lparr>panicked = False, returned = Some e, world_after = w, log = []\<rparr>
          \<and> vterrors_Code (foreignCode pkg) e = FAILED_PRECONDITION))
   \<and> (AllowedTabletTypes pkg = [] \<longrightarrow>
        checkAllowedTabletTypes pkg target = None
        \<and> withRetry dg pkg target inTransaction inner w
          = withRetry_attempts dg pkg target inTransaction inner w)"
  by (simp add: withRetry_def checkAllowedTabletTypes_def allowedMatch_iff errNotAllowed_def)

theorem C7_allowed_tablet_types_witness:
  "(AllowedTabletTypes (packageWith False [MASTER]) \<noteq> []
    \<and> TabletType (targetOf REPLICA) \<notin> set (AllowedTabletTypes (packageWith False [MASTER]))
    \<and> (\<exists>e. withRetry (gatewayWith 2 [] threeReplicas [] (None, None)) (packageWith False [MASTER])
               (targetOf REPLICA) False succeed 0
             = \<lparr>panicked = False, returned = Some e, world_after = 0, log = []\<rparr>
           \<and> vterrors_Code (foreignCode (packageWith False [MASTER])) e = FAILED_PRECONDITION))
   \<and> (AllowedTabletTypes (packageWith False []) = []
      \<and> checkAllowedTabletTypes (packageWith False []) (targetOf REPLICA) = None)"
  using C7_allowed_tablet_types [of "packageWith False [MASTER]" "targetOf REPLICA"
      "gatewayWith 2 [] threeReplicas [] (None, None)" False succeed 0]
    C7_allowed_tablet_types [of "packageWith False []" "targetOf REPLICA"
      "gatewayWith 2 [] threeReplicas [] (None, None)" False succeed 0]
  by (simp add: packageWith_def targetOf_def)

subsection \<open>The number of attempts\<close>

text \<open>
  C1. In one call of \<open>withRetry\<close> the action is invoked at most \<open>retryCount + 1\<close> times
  (the log has at most that many \<open>EvInner\<close> events; for a \<open>retryCount\<close> below \<open>-1\<close> the bound
  reads 0, and the action is not invoked). With \<open>retryCount = 0\<close> the action is invoked at
  most once, so that an action that reports a retryable error is not invoked again.
\<close>

theorem C1_attempts_bounded:
  "length (filter isInner (log (withRetry dg pkg target inTransaction inner w)))
     \<le> nat (sint (retryCount dg) + 1)
   \<and> (retryCount dg = 0 \<longrightarrow>
        length (filter isInner (log (withRetry dg pkg target inTransaction inner w))) \<le> 1)"
proof -
  have "sint (retryCount dg + 1) \<le> sint (retryCount dg) + 1"
    by (rule sint_plus_one_le)
  then have "length (filter isInner (log (withRetry dg pkg target inTransaction inner w)))
     \<le> nat (sint (retryCount dg) + 1)"
    using withRetry_inner_count [of dg pkg target inTransaction inner w] by linarith
  then show ?thesis by auto
qed

theorem C1_attempts_bounded_witness:
  "retryCount (gatewayWith 0 [] threeReplicas [] (None, None)) = 0
   \<and> length (filter isInner (log (withRetry (gatewayWith 0 [] threeReplicas [] (None, None))
        (packageWith False []) (targetOf REPLICA) False alwaysRetry 0))) \<le> 1"
  using C1_attempts_bounded [of "gatewayWith 0 [] threeReplicas [] (None, None)"
      "packageWith False []" "targetOf REPLICA" False alwaysRetry 0]
  by (simp add: gatewayWith_def)

subsection \<open>StatsUpdate and WaitForTablets\<close>

text \<open>
  C9. \<open>StatsUpdate\<close> passes every health update to the tablet stats cache. It passes the
  update to the buffer if and only if the tablet type of the update's target is MASTER: for
  any other type the buffer is not called and the world is what the cache left.
\<close>

theorem C9_stats_update:
  "snd (StatsUpdate dg ts w)
     = EvTscStatsUpdate ts # (if TabletType (Target ts) = MASTER then [EvBufferStatsUpdate ts] else [])
   \<and> (EvBufferStatsUpdate ts \<in> set (snd (StatsUpdate dg ts w)) \<longleftrightarrow> TabletType (Target ts) = MASTER)
   \<and> (TabletType (Target ts) \<noteq> MASTER \<longrightarrow> fst (StatsUpdate dg ts w) = tsc_StatsUpdate dg ts w)
   \<and> (TabletType (Target ts) = MASTER \<longrightarrow>
        fst (StatsUpdate dg ts w) = buffer_StatsUpdate dg ts (tsc_StatsUpdate dg ts w))"
  by (simp add: StatsUpdate_def Let_def)

theorem C9_stats_update_witness:
  "(TabletType (Target (tabletIn ''a'' ''r1'' REPLICA)) \<noteq> MASTER
    \<and> snd (StatsUpdate (gatewayWith 2 [] [] [] (None, None)) (tabletIn ''a'' ''r1'' REPLICA) 0)
        = [EvTscStatsUpdate (tabletIn ''a'' ''r1'' REPLICA)])
   \<and> (TabletType (Target (tabletIn ''a'' ''m1'' MASTER)) = MASTER
    \<and> snd (StatsUpdate (gatewayWith 2 [] [] [] (None, None)) (tabletIn ''a'' ''m1'' MASTER) 0)
        = [EvTscStatsUpdate (tabletIn ''a'' ''m1'' MASTER),
           EvBufferStatsUpdate (tabletIn ''a'' ''m1'' MASTER)])"
  using C9_stats_update [of "gatewayWith 2 [] [] [] (None, None)" "tabletIn ''a'' ''r1'' REPLICA" 0]
    C9_stats_update [of "gatewayWith 2 [] [] [] (None, None)" "tabletIn ''a'' ''m1'' MASTER" 0]
  by (simp add: tabletIn_def)

text \<open>
  C10. \<open>WaitForTablets\<close> with an empty list of tablet types returns nil at once: the
  topology server is not asked, the stats cache is not waited on, the world is unchanged.
\<close>

theorem C10_wait_for_no_tablets: "WaitForTablets dg disc [] w = (None, w, [])"
  by (simp add: WaitForTablets_def)

subsection \<open>NewDiscoveryGateway\<close>

lemma watchCells_both_filters:
  assumes "length (TabletFilters disc) > 0" and "FilteringKeyspaces disc"
    and "\<exists>c \<in> set cs. c \<noteq> []"
  shows "watchCells disc cs ws
         = Inl ''Only one of -keyspaces_to_watch and -tablet_filters may be specified at a time''"
  using assms(3)
proof (induction cs arbitrary: ws)
  case Nil
  then show ?case by simp
next
  case (Cons c cs)
  then show ?case using assms(1,2) by (cases "c = []") auto
qed

lemma watchCells_no_cell: "\<forall>c \<in> set cs. c = [] \<Longrightarrow> watchCells disc cs ws = Inr ws"
  by (induction cs arbitrary: ws) auto

text \<open>
  C8, as the claim states it, fails: with \<open>tablet_filters\<close> and \<open>keyspaces_to_watch\<close> both
  set and an empty \<open>cells_to_watch\<close>, \<open>NewDiscoveryGateway\<close> returns a gateway (with no
  watcher).
\<close>

theorem C8_counterexample:
  "TabletFilters (discoveryWith '''' [''ks|-80''] [''ks'']) \<noteq> []
   \<and> KeyspacesToWatch (discoveryWith '''' [''ks|-80''] [''ks'']) \<noteq> []
   \<and> NewDiscoveryGateway (discoveryWith '''' [''ks|-80''] [''ks''])
        (None :: (Code \<times> string + unit) option) ''a'' 2
      = Created ''a'' 2 []"
  by (simp add: discoveryWith_def NewDiscoveryGateway_def)

text \<open>
  C8, amended. The two filters are checked when a watcher is made for a cell. With
  \<open>tablet_filters\<close> and \<open>keyspaces_to_watch\<close> both non-empty, \<open>NewDiscoveryGateway\<close> ends the
  process (\<open>log.Exitf\<close>) whenever \<open>cells_to_watch\<close> has an entry that is not empty; when it
  has none (and the topology server is there) a gateway without watchers is returned.
\<close>

theorem C8_both_filters_fatal:
  assumes "TabletFilters disc \<noteq> []" and "KeyspacesToWatch disc \<noteq> []"
  shows "((\<exists>c \<in> set (strings_Split (CellsToWatch disc) (CHR '','')). c \<noteq> []) \<longrightarrow>
            (\<exists>msg. NewDiscoveryGateway disc serv cell retries = Exitf msg))
         \<and> ((\<forall>c \<in> set (strings_Split (CellsToWatch disc) (CHR '','')). c = []) \<longrightarrow>
              (\<forall>e. serv \<noteq> Some (Inl e)) \<longrightarrow>
              NewDiscoveryGateway disc serv cell retries = Created cell retries [])"
proof (intro conjI impI)
  assume "\<exists>c \<in> set (strings_Split (CellsToWatch disc) (CHR '','')). c \<noteq> []"
  then have "watchCells disc (strings_Split (CellsToWatch disc) (CHR '','')) []
         = Inl ''Only one of -keyspaces_to_watch and -tablet_filters may be specified at a time''"
    using assms by (intro watchCells_both_filters) (simp_all add: FilteringKeyspaces_def)
  then show "\<exists>msg. NewDiscoveryGateway disc serv cell retries = Exitf msg"
    by (simp add: NewDiscoveryGateway_def split: option.split sum.split)
next
  assume "\<forall>c \<in> set (strings_Split (CellsToWatch disc) (CHR '','')). c = []"
    and "\<forall>e. serv \<noteq> Some (Inl e)"
  then show "NewDiscoveryGateway disc serv cell retries = Created cell retries []"
    by (simp add: NewDiscoveryGateway_def watchCells_no_cell split: option.split sum.split)
qed

theorem C8_both_filters_fatal_witness:
  "TabletFilters (discoveryWith ''a,b'' [''ks|-80''] [''ks'']) \<noteq> []
   \<and> KeyspacesToWatch (discoveryWith ''a,b'' [''ks|-80''] [''ks'']) \<noteq> []
   \<and> (\<exists>c \<in> set (strings_Split (CellsToWatch (discoveryWith ''a,b'' [''ks|-80''] [''ks''])) (CHR '','')).
         c \<noteq> [])
   \<and> (\<exists>msg. NewDiscoveryGateway (discoveryWith ''a,b'' [''ks|-80''] [''ks''])
                (None :: (Code \<times> string + unit) option) ''a'' 2 = Exitf msg)"
  using C8_both_filters_fatal [of "discoveryWith ''a,b'' [''ks|-80''] [''ks'']"
      "None :: (Code \<times> string + unit) option" "''a''" 2]
  by (simp add: discoveryWith_def)

subsection \<open>The buffer\<close>

lemma no_wait_waitsOk: "\<forall>e \<in> set xs. \<not> isWait e \<Longrightarrow> waitsOk xs"
  by (induction xs) (auto dest: isBuffered_isWait)

lemma waitsOk_append:
  "waitsOk (xs @ ys) \<longleftrightarrow>
     waitsOk xs \<and> waitsOk ys \<and> ((\<exists>ev \<in> set xs. isBuffered ev) \<longrightarrow> (\<forall>e \<in> set ys. \<not> isWait e))"
  by (induction xs) auto

lemma waitsOk_short: "length W \<le> 1 \<Longrightarrow> waitsOk W"
  by (cases W) auto

lemma loop_waits:
  "\<exists>added. calls (snd (withRetry_loop dg pkg target inTransaction inner i s)) = calls s @ added
     \<and> (\<forall>ev \<in> set added. isWait ev \<longrightarrow> TabletType target = MASTER \<and> \<not> inTransaction)
     \<and> (bufferedOnce s \<longrightarrow> (\<forall>ev \<in> set added. \<not> isWait ev))
     \<and> waitsOk added"
proof (rule withRetry_loop_rule, goal_cases)
  case (1 i s)
  then show ?case by simp
next
  case (2 i s f s')
  from attempt_log [OF 2(2)] obtain W S T where h: "calls s' = calls s @ W @ S @ T"
    "length W \<le> 1"
    "W \<noteq> [] \<longrightarrow> \<not> bufferedOnce s \<and> \<not> inTransaction \<and> TabletType target = MASTER"
    "\<forall>ev \<in> set S. \<not> isWait ev \<and> \<not> isInner ev"
    "\<forall>ev \<in> set T. \<not> isWait ev \<and> \<not> isTablets ev"
    by blast
  have "waitsOk (W @ S @ T)"
    using h(2,4,5) by (auto simp: waitsOk_append waitsOk_short no_wait_waitsOk)
  moreover have "\<forall>ev \<in> set (W @ S @ T). isWait ev \<longrightarrow> TabletType target = MASTER \<and> \<not> inTransaction"
    using h(3,4,5) by auto
  moreover have "bufferedOnce s \<longrightarrow> (\<forall>ev \<in> set (W @ S @ T). \<not> isWait ev)"
    using h(3,4,5) by auto
  ultimately show ?case
    using h(1) by (intro exI [of _ "W @ S @ T"]) simp
next
  case (3 i s s1 r)
  from attempt_log [OF 3(2)] obtain W S T where h: "calls s1 = calls s @ W @ S @ T"
    "length W \<le> 1"
    "W \<noteq> [] \<longrightarrow> \<not> bufferedOnce s \<and> \<not> inTransaction \<and> TabletType target = MASTER"
    "(\<exists>ev \<in> set W. isBuffered ev) \<longrightarrow> bufferedOnce s1 \<or> Continue = Break"
    "bufferedOnce s \<longrightarrow> bufferedOnce s1"
    "\<forall>ev \<in> set S. \<not> isWait ev \<and> \<not> isInner ev"
    "\<forall>ev \<in> set T. \<not> isWait ev \<and> \<not> isTablets ev"
    by blast
  from 3(3) obtain added where a: "calls (snd r) = calls s1 @ added"
    "\<forall>ev \<in> set added. isWait ev \<longrightarrow> TabletType target = MASTER \<and> \<not> inTransaction"
    "bufferedOnce s1 \<longrightarrow> (\<forall>ev \<in> set added. \<not> isWait ev)"
    "waitsOk added"
    by blast
  have "waitsOk (W @ S @ T @ added)"
    using h(2,4,6,7) a(3,4)
    by (auto simp: waitsOk_append waitsOk_short no_wait_waitsOk dest: isBuffered_isWait)
  moreover have "\<forall>ev \<in> set (W @ S @ T @ added). isWait ev \<longrightarrow> TabletType target = MASTER \<and> \<not> inTransaction"
    using h(3,6,7) a(2) by auto
  moreover have "bufferedOnce s \<longrightarrow> (\<forall>ev \<in> set (W @ S @ T @ added). \<not> isWait ev)"
    using h(3,5,6,7) a(3) by auto
  ultimately show ?case
    using h(1) a(1) by (intro exI [of _ "W @ S @ T @ added"]) simp
qed

lemma waitsOk_split:
  "waitsOk (pre @ ev # post) \<Longrightarrow> isBuffered ev \<Longrightarrow> \<forall>e \<in> set post. \<not> isWait e"
  by (induction pre) auto

lemma withRetry_waits:
  fixes dg :: "('w, 'c, 'e) DiscoveryGateway"
  shows "(\<forall>ev \<in> set (log (withRetry dg pkg target inTransaction inner w)).
            isWait ev \<longrightarrow> TabletType target = MASTER \<and> \<not> inTransaction)
         \<and> waitsOk (log (withRetry dg pkg target inTransaction inner w))"
proof (cases "checkAllowedTabletTypes pkg target")
  case (Some e)
  then show ?thesis by (simp add: withRetry_def)
next
  case None
  obtain added where a:
    "calls (snd (withRetry_loop dg pkg target inTransaction inner 0 (initialVars w)))
       = calls (initialVars w :: ('w, 'c, 'e) vars) @ added"
    "\<forall>ev \<in> set added. isWait ev \<longrightarrow> TabletType target = MASTER \<and> \<not> inTransaction"
    "waitsOk added"
    using loop_waits [of dg pkg target inTransaction inner 0 "initialVars w"] by blast
  have "waitsOk (added @ replicate n EvRetryDone)" for n
    using a(3) by (simp add: waitsOk_append no_wait_waitsOk)
  then show ?thesis
    using None a(1,2) by (auto simp: withRetry_def withRetry_attempts_log initialVars_def)
qed

text \<open>
  C2. In one call of \<open>withRetry\<close> the buffer (\<open>WaitForFailoverEnd\<close>) is asked only for a
  MASTER target outside a transaction; and after a call of the buffer that returned a
  \<open>retryDone\<close> callback (the request was buffered) the buffer is not asked again in that
  call of \<open>withRetry\<close>, whatever the number of attempts.
\<close>

theorem C2_buffer_once:
  "(\<forall>ev \<in> set (log (withRetry dg pkg target inTransaction inner w)).
       isWait ev \<longrightarrow> TabletType target = MASTER \<and> \<not> inTransaction)
   \<and> (\<forall>pre ev post.
         log (withRetry dg pkg target inTransaction inner w) = pre @ ev # post \<and> isBuffered ev
         \<longrightarrow> (\<forall>e \<in> set post. \<not> isWait e))"
  using withRetry_waits [of dg pkg target inTransaction inner w] waitsOk_split
  by metis

theorem C2_buffer_once_witness:
  "log (withRetry (gatewayWith 2 oneMaster [] [] (Some id, None)) (packageWith False [])
             (targetOf MASTER) False alwaysRetry 0)
   = [] @ EvWaitForFailoverEnd ''ks'' ''0'' True False #
      [EvGetHealthyTabletStats ''ks'' ''0'' MASTER,
      EvTablets oneMaster,
      EvGetConnection ''m1'',
      EvInner (targetOf MASTER) ''m1'' True,
      EvUpdateStats (targetOf MASTER) True,
      EvGetHealthyTabletStats ''ks'' ''0'' MASTER,
      EvTablets oneMaster,
      EvRetryDone]
   \<and> isBuffered (EvWaitForFailoverEnd ''ks'' ''0'' True False :: string event)
   \<and> TabletType (targetOf MASTER) = MASTER
   \<and> filter isWait [EvGetHealthyTabletStats ''ks'' ''0'' MASTER,
      EvTablets oneMaster,
      EvGetConnection ''m1'',
      EvInner (targetOf MASTER) ''m1'' True,
      EvUpdateStats (targetOf MASTER) True,
      EvGetHealthyTabletStats ''ks'' ''0'' MASTER,
      EvTablets oneMaster,
      EvRetryDone] = []"
  using C2_buffer_once [of "gatewayWith 2 oneMaster [] [] (Some id, None)" "packageWith False []"
      "targetOf MASTER" False alwaysRetry 0]
  by (simp add: scenario_simps oneMaster_def)

subsection \<open>An empty snapshot\<close>

lemma takeWhile_stops:
  assumes "S \<noteq> []" and "isTablets (last S)"
  shows "takeWhile (\<lambda>e. \<not> isTablets e) (W @ S @ R) = takeWhile (\<lambda>e. \<not> isTablets e) (W @ S)"
proof -
  have "last S \<in> set (W @ S)"
    using assms(1) by simp
  then have "takeWhile (\<lambda>e. \<not> isTablets e) ((W @ S) @ R) = takeWhile (\<lambda>e. \<not> isTablets e) (W @ S)"
    using assms(2) by (intro takeWhile_append1 [where x = "last S"]) simp_all
  then show ?thesis by simp
qed

lemma attempt_before_tablets:
  assumes "\<forall>ev \<in> set W. isWait ev" and "\<forall>ev \<in> set S. \<not> isWait ev \<and> \<not> isInner ev"
    and "S = [] \<or> isTablets (last S) \<and> (\<forall>ev \<in> set (butlast S). \<not> isTablets ev)"
    and "S = [] \<longrightarrow> T = [] \<and> R = []"
  shows "\<forall>ev \<in> set (takeWhile (\<lambda>e. \<not> isTablets e) (W @ S @ T @ R)). \<not> isInner ev"
proof (cases "S = []")
  case True
  then show ?thesis
    using assms(1,4) by (auto dest!: set_takeWhileD dest: isWait_other)
next
  case False
  then have "takeWhile (\<lambda>e. \<not> isTablets e) (W @ S @ T @ R) = takeWhile (\<lambda>e. \<not> isTablets e) (W @ S)"
    using assms(3) by (intro takeWhile_stops) auto
  then show ?thesis
    using assms(1,2) by (auto dest!: set_takeWhileD dest: isWait_other)
qed

lemma empty_snapshot_last:
  assumes "EvTablets [] \<in> set S"
    and "S = [] \<or> isTablets (last S) \<and> (\<forall>ev \<in> set (butlast S). \<not> isTablets ev)"
  shows "last S = EvTablets [] \<and> EvTablets [] \<notin> set (butlast S) \<and> S \<noteq> []"
proof -
  have ne: "S \<noteq> []"
    using assms(1) by auto
  then have "S = butlast S @ [last S]"
    by simp
  then have "EvTablets [] \<in> set (butlast S) \<or> EvTablets [] = last S"
    using assms(1) by (metis Un_iff empty_iff empty_set set_ConsD set_append)
  moreover have "EvTablets [] \<notin> set (butlast S)"
    using assms(2) ne by auto
  ultimately show ?thesis
    using ne by auto
qed

lemma loop_empty_snapshot:
  "\<exists>added. calls (snd (withRetry_loop dg pkg target inTransaction inner i s)) = calls s @ added
     \<and> (EvTablets [] \<in> set added \<longrightarrow>
          added \<noteq> [] \<and> last added = EvTablets [] \<and> EvTablets [] \<notin> set (butlast added)
          \<and> \<not> fst (withRetry_loop dg pkg target inTransaction inner i s)
          \<and> err (snd (withRetry_loop dg pkg target inTransaction inner i s))
              = Some (errNoHealthyTablet target))
     \<and> (\<forall>ev \<in> set (takeWhile (\<lambda>e. \<not> isTablets e) added). \<not> isInner ev)"
proof (rule withRetry_loop_rule [where P = "\<lambda>i s r. \<exists>added. calls (snd r) = calls s @ added
     \<and> (EvTablets [] \<in> set added \<longrightarrow>
          added \<noteq> [] \<and> last added = EvTablets [] \<and> EvTablets [] \<notin> set (butlast added)
          \<and> \<not> fst r \<and> err (snd r) = Some (errNoHealthyTablet target))
     \<and> (\<forall>ev \<in> set (takeWhile (\<lambda>e. \<not> isTablets e) added). \<not> isInner ev)"], goal_cases)
  case (1 i s)
  then show ?case by simp
next
  case (2 i s f s')
  from attempt_log [OF 2(2)] obtain W S T where h: "calls s' = calls s @ W @ S @ T"
    "\<forall>ev \<in> set W. isWait ev"
    "\<forall>ev \<in> set S. \<not> isWait ev \<and> \<not> isInner ev"
    "S = [] \<or> isTablets (last S) \<and> (\<forall>ev \<in> set (butlast S). \<not> isTablets ev)"
    "EvTablets [] \<in> set S \<longrightarrow> T = [] \<and> f = Break \<and> err s' = Some (errNoHealthyTablet target)"
    "\<forall>ev \<in> set T. \<not> isWait ev \<and> \<not> isTablets ev"
    "S = [] \<longrightarrow> T = []"
    by blast
  have before: "\<forall>ev \<in> set (takeWhile (\<lambda>e. \<not> isTablets e) (W @ S @ T)). \<not> isInner ev"
    using attempt_before_tablets [of W S T "[]"] h(2,3,4,7) by simp
  have c2: "added \<noteq> [] \<and> last added = EvTablets [] \<and> EvTablets [] \<notin> set (butlast added)
          \<and> \<not> fst (f = Panic, s') \<and> err (snd (f = Panic, s')) = Some (errNoHealthyTablet target)"
    if "EvTablets [] \<in> set added" "added = W @ S @ T" for added
  proof -
    have "EvTablets [] \<notin> set W" "EvTablets [] \<notin> set T"
      using h(2,6) by auto
    then have inS: "EvTablets [] \<in> set S"
      using that by auto
    then have "T = []" "f = Break" "err s' = Some (errNoHealthyTablet target)"
      using h(5) by auto
    moreover have "last S = EvTablets [] \<and> EvTablets [] \<notin> set (butlast S) \<and> S \<noteq> []"
      using inS h(4) by (rule empty_snapshot_last)
    ultimately show ?thesis
      using that(2) \<open>EvTablets [] \<notin> set W\<close> by (simp add: butlast_append)
  qed
  have c1: "calls (snd (f = Panic, s')) = calls s @ (W @ S @ T)"
    using h(1) by simp
  from c1 c2 [of "W @ S @ T"] before show ?case
    by blast
next
  case (3 i s s1 r)
  from attempt_log [OF 3(2)] obtain W S T where h: "calls s1 = calls s @ W @ S @ T"
    "\<forall>ev \<in> set W. isWait ev"
    "\<forall>ev \<in> set S. \<not> isWait ev \<and> \<not> isInner ev"
    "S = [] \<or> isTablets (last S) \<and> (\<forall>ev \<in> set (butlast S). \<not> isTablets ev)"
    "EvTablets [] \<in> set S \<longrightarrow> T = [] \<and> Continue = Break \<and> err s1 = Some (errNoHealthyTablet target)"
    "\<forall>ev \<in> set T. \<not> isWait ev \<and> \<not> isTablets ev"
    "S = [] \<longrightarrow> T = []" "Continue = Continue \<longrightarrow> S \<noteq> []"
    by blast
  from 3(3) obtain added where a: "calls (snd r) = calls s1 @ added"
    "EvTablets [] \<in> set added \<longrightarrow>
          added \<noteq> [] \<and> last added = EvTablets [] \<and> EvTablets [] \<notin> set (butlast added)
          \<and> \<not> fst r \<and> err (snd r) = Some (errNoHealthyTablet target)"
    by blast
  have before: "\<forall>ev \<in> set (takeWhile (\<lambda>e. \<not> isTablets e) (W @ S @ T @ added)). \<not> isInner ev"
    using attempt_before_tablets [of W S T added] h(2,3,4,7,8) by simp
  have notin: "EvTablets [] \<notin> set (W @ S @ T)"
    using h(2,5,6) by auto
  have c2: "all \<noteq> [] \<and> last all = EvTablets [] \<and> EvTablets [] \<notin> set (butlast all)
          \<and> \<not> fst r \<and> err (snd r) = Some (errNoHealthyTablet target)"
    if "EvTablets [] \<in> set all" "all = W @ S @ T @ added" for all
  proof -
    have "EvTablets [] \<in> set added"
      using that notin by auto
    then have "added \<noteq> []" "last added = EvTablets []" "EvTablets [] \<notin> set (butlast added)"
      "\<not> fst r" "err (snd r) = Some (errNoHealthyTablet target)"
      using a(2) by auto
    then show ?thesis
      using that(2) notin by (simp add: butlast_append)
  qed
  have c1: "calls (snd r) = calls s @ (W @ S @ T @ added)"
    using h(1) a(1) by simp
  from c1 c2 [of "W @ S @ T @ added"] before show ?case
    by blast
qed

lemma withRetry_attempts_result:
  "panicked (withRetry_attempts dg pkg target inTransaction inner w)
     = fst (withRetry_loop dg pkg target inTransaction inner 0 (initialVars w))
   \<and> returned (withRetry_attempts dg pkg target inTransaction inner w)
     = (if fst (withRetry_loop dg pkg target inTransaction inner 0 (initialVars w)) then None
        else NewShardError pkg
               (err (snd (withRetry_loop dg pkg target inTransaction inner 0 (initialVars w)))) target)"
  by (simp add: withRetry_attempts_def split: prod.split)

text \<open>
  C3. If an attempt of \<open>withRetry\<close> finds its snapshot of the healthy tablets empty (after
  the RDONLY tablets were appended, where they are), the call does not panic and returns
  \<open>NewShardError\<close> of the UNAVAILABLE error "no healthy tablet available"; nothing follows
  the snapshot in the log but the deferred \<open>retryDone\<close> callbacks, so there is no further
  attempt and no call of the action; and when that snapshot is the first of the call, the
  action is not invoked at all.
\<close>

theorem C3_no_healthy_tablet:
  fixes dg :: "('w, 'c, 'e) DiscoveryGateway"
  assumes "log (withRetry dg pkg target inTransaction inner w) = pre @ EvTablets [] # post"
  shows "\<not> panicked (withRetry dg pkg target inTransaction inner w)
         \<and> returned (withRetry dg pkg target inTransaction inner w)
             = NewShardError pkg (Some (errNoHealthyTablet target)) target
         \<and> vterrors_Code (foreignCode pkg) (errNoHealthyTablet target) = UNAVAILABLE
         \<and> (\<forall>ev \<in> set post. ev = EvRetryDone)
         \<and> ((\<forall>ev \<in> set pre. \<not> isTablets ev) \<longrightarrow>
              (\<forall>ev \<in> set (log (withRetry dg pkg target inTransaction inner w)). \<not> isInner ev))"
proof (cases "checkAllowedTabletTypes pkg target")
  case (Some e)
  then show ?thesis
    using assms by (simp add: withRetry_def)
next
  case None
  let ?l = "withRetry_loop dg pkg target inTransaction inner 0 (initialVars w)"
  let ?n = "length (deferred (snd ?l))"
  obtain added where a: "calls (snd ?l) = calls (initialVars w :: ('w, 'c, 'e) vars) @ added"
    "EvTablets [] \<in> set added \<longrightarrow>
          added \<noteq> [] \<and> last added = EvTablets [] \<and> EvTablets [] \<notin> set (butlast added)
          \<and> \<not> fst ?l \<and> err (snd ?l) = Some (errNoHealthyTablet target)"
    "\<forall>ev \<in> set (takeWhile (\<lambda>e. \<not> isTablets e) added). \<not> isInner ev"
    using loop_empty_snapshot [of dg pkg target inTransaction inner 0 "initialVars w"] by blast
  have lg: "log (withRetry dg pkg target inTransaction inner w) = added @ replicate ?n EvRetryDone"
    using None a(1) by (simp add: withRetry_def withRetry_attempts_log initialVars_def)
  have "EvTablets [] \<in> set (pre @ EvTablets [] # post)"
    by simp
  then have "EvTablets [] \<in> set (added @ replicate ?n EvRetryDone)"
    by (simp only: assms [symmetric] lg)
  then have "EvTablets [] \<in> set added"
    by auto
  then have f: "added \<noteq> []" "last added = EvTablets []" "EvTablets [] \<notin> set (butlast added)"
    "\<not> fst ?l" "err (snd ?l) = Some (errNoHealthyTablet target)"
    using a(2) by auto
  have "added = butlast added @ [EvTablets []]"
    using f(1,2) by (metis append_butlast_last_id)
  then have "butlast added @ EvTablets [] # replicate ?n EvRetryDone = pre @ EvTablets [] # post"
    using lg assms by (metis append.assoc append_Cons append_Nil)
  moreover have "EvTablets [] \<notin> set (replicate ?n (EvRetryDone :: 'c event))"
    by auto
  ultimately have pp: "pre = butlast added" "post = replicate ?n EvRetryDone"
    using f(3) by (simp_all add: append_Cons_eq_iff)
  have res: "\<not> panicked (withRetry dg pkg target inTransaction inner w)"
    "returned (withRetry dg pkg target inTransaction inner w)
       = NewShardError pkg (Some (errNoHealthyTablet target)) target"
    using None f(4,5) by (simp_all add: withRetry_def withRetry_attempts_result)
  have "\<forall>ev \<in> set (log (withRetry dg pkg target inTransaction inner w)). \<not> isInner ev"
    if "\<forall>ev \<in> set pre. \<not> isTablets ev"
  proof -
    have "takeWhile (\<lambda>e. \<not> isTablets e) (pre @ [EvTablets []]) = pre"
      using that by simp
    moreover have "added = pre @ [EvTablets []]"
      using pp(1) \<open>added = butlast added @ [EvTablets []]\<close> by simp
    ultimately have "\<forall>ev \<in> set pre. \<not> isInner ev"
      using a(3) by simp
    then show ?thesis
      using assms pp(2) by auto
  qed
  then show ?thesis
    using res pp(2) by (simp add: errNoHealthyTablet_def)
qed

theorem C3_no_healthy_tablet_witness:
  "log (withRetry (gatewayWith 2 [] [] [] (None, None)) (packageWith False []) (targetOf REPLICA)
         False succeed 0)
     = [EvGetHealthyTabletStats ''ks'' ''0'' REPLICA] @ EvTablets [] # []
   \<and> filter isTablets [EvGetHealthyTabletStats ''ks'' ''0'' REPLICA :: string event] = []
   \<and> \<not> panicked (withRetry (gatewayWith 2 [] [] [] (None, None)) (packageWith False [])
                    (targetOf REPLICA) False succeed 0)
   \<and> returned (withRetry (gatewayWith 2 [] [] [] (None, None)) (packageWith False [])
                    (targetOf REPLICA) False succeed 0)
       = NewShardError (packageWith False []) (Some (errNoHealthyTablet (targetOf REPLICA)))
           (targetOf REPLICA)
   \<and> filter isInner (log (withRetry (gatewayWith 2 [] [] [] (None, None)) (packageWith False [])
                    (targetOf REPLICA) False succeed 0)) = []"
proof -
  have l: "log (withRetry (gatewayWith 2 [] [] [] (None, None)) (packageWith False []) (targetOf REPLICA)
         False succeed 0)
     = [EvGetHealthyTabletStats ''ks'' ''0'' REPLICA] @ EvTablets [] # []"
    by (simp add: scenario_simps)
  show ?thesis
    using C3_no_healthy_tablet [OF l] l by (simp add: filter_empty_conv)
qed

subsection \<open>shuffleTablets\<close>

lemma nextTablet_spec:
  assumes "0 \<le> offset" and "len \<le> int (length tablets)"
  shows "\<exists>k. nextTablet cell tablets offset len b = Some k
           \<and> (k = - 1 \<and> (\<forall>j. offset \<le> j \<and> j < len \<longrightarrow> sameCellAs cell (tablets ! nat j) \<noteq> b)
              \<or> offset \<le> k \<and> k < len \<and> sameCellAs cell (tablets ! nat k) = b
                \<and> (\<forall>j. offset \<le> j \<and> j < k \<longrightarrow> sameCellAs cell (tablets ! nat j) \<noteq> b))"
  using assms
proof (induction cell tablets offset len b rule: nextTablet.induct)
  case (1 cell tablets offset len sameCell)
  show ?case
  proof (cases "offset < len")
    case False
    then have "nextTablet cell tablets offset len sameCell = Some (- 1)"
      by (simp add: nextTablet.simps [of cell tablets offset len sameCell])
    moreover have "\<forall>j. offset \<le> j \<and> j < len \<longrightarrow> sameCellAs cell (tablets ! nat j) \<noteq> sameCell"
      using False by auto
    ultimately show ?thesis by blast
  next
    case True
    show ?thesis
    proof (cases "sameCellAs cell (tablets ! nat offset) = sameCell")
      case hit: True
      then have "nextTablet cell tablets offset len sameCell = Some offset"
        using True "1.prems"
        by (simp add: nextTablet.simps [of cell tablets offset len sameCell] sameCellAs_def)
      moreover have "\<forall>j. offset \<le> j \<and> j < offset \<longrightarrow> sameCellAs cell (tablets ! nat j) \<noteq> sameCell"
        by auto
      ultimately show ?thesis
        using True hit by blast
    next
      case miss: False
      then have "(Cell (Alias (Tablet (tablets ! nat offset))) = cell) \<noteq> sameCell"
        by (simp add: sameCellAs_def)
      from "1.IH" [OF True _ this] "1.prems" True
      obtain k where k: "nextTablet cell tablets (offset + 1) len sameCell = Some k"
        "k = - 1 \<and> (\<forall>j. offset + 1 \<le> j \<and> j < len \<longrightarrow> sameCellAs cell (tablets ! nat j) \<noteq> sameCell)
         \<or> offset + 1 \<le> k \<and> k < len \<and> sameCellAs cell (tablets ! nat k) = sameCell
           \<and> (\<forall>j. offset + 1 \<le> j \<and> j < k \<longrightarrow> sameCellAs cell (tablets ! nat j) \<noteq> sameCell)"
        by auto
      have here: "nextTablet cell tablets offset len sameCell = Some k"
        using True "1.prems" miss k(1)
        by (simp add: nextTablet.simps [of cell tablets offset len sameCell] sameCellAs_def)
      from k(2) show ?thesis
      proof (elim disjE conjE)
        assume none: "k = - 1"
          "\<forall>j. offset + 1 \<le> j \<and> j < len \<longrightarrow> sameCellAs cell (tablets ! nat j) \<noteq> sameCell"
        have "sameCellAs cell (tablets ! nat j) \<noteq> sameCell" if "offset \<le> j" "j < len" for j
          using that none(2) miss by (cases "j = offset") auto
        then show ?thesis
          using here none(1) by blast
      next
        assume found: "offset + 1 \<le> k" "k < len" "sameCellAs cell (tablets ! nat k) = sameCell"
          "\<forall>j. offset + 1 \<le> j \<and> j < k \<longrightarrow> sameCellAs cell (tablets ! nat j) \<noteq> sameCell"
        have "sameCellAs cell (tablets ! nat j) \<noteq> sameCell" if "offset \<le> j" "j < k" for j
          using that found(4) miss by (cases "j = offset") auto
        moreover have "offset \<le> k"
          using found(1) by simp
        ultimately show ?thesis
          using here found(2,3) by blast
      qed
    qed
  qed
qed

lemma swapAt_result:
  assumes "swapAt xs i j = Some xs'"
  shows "0 \<le> i \<and> i < int (length xs) \<and> 0 \<le> j \<and> j < int (length xs)"
    and "xs' = xs[nat i := xs ! nat j, nat j := xs ! nat i]"
    and "length xs' = length xs"
    and "mset xs' = mset xs"
proof -
  show b: "0 \<le> i \<and> i < int (length xs) \<and> 0 \<le> j \<and> j < int (length xs)"
    using assms by (simp add: swapAt_def split: if_splits)
  show e: "xs' = xs[nat i := xs ! nat j, nat j := xs ! nat i]"
    using assms by (simp add: swapAt_def split: if_splits)
  show "length xs' = length xs"
    using e by simp
  have "nat i < length xs" "nat j < length xs"
    using b by auto
  then show "mset xs' = mset xs"
    using e by (simp add: mset_swap)
qed

lemma swapAt_defined:
  assumes "0 \<le> i" "i < int (length xs)" "0 \<le> j" "j < int (length xs)"
  shows "swapAt xs i j = Some (xs[nat i := xs ! nat j, nat j := xs ! nat i])"
  using assms by (simp add: swapAt_def)

lemma swapAt_nth:
  assumes "swapAt xs i j = Some xs'" and "0 \<le> k" and "k < int (length xs)"
  shows "xs' ! nat k = (if k = j then xs ! nat i else if k = i then xs ! nat j else xs ! nat k)"
proof -
  have b: "0 \<le> i \<and> i < int (length xs) \<and> 0 \<le> j \<and> j < int (length xs)"
    and e: "xs' = xs[nat i := xs ! nat j, nat j := xs ! nat i]"
    using swapAt_result [OF assms(1)] by auto
  have "nat k = nat j \<longleftrightarrow> k = j" "nat k = nat i \<longleftrightarrow> k = i"
    using assms(2) b by auto
  then show ?thesis
    using e assms(2,3) b by (auto simp: nth_list_update)
qed

lemma moveSameCell_spec:
  assumes "0 \<le> diffCell" and "diffCell \<le> sameCell" and "sameCell \<le> int (length tablets)"
    and "\<forall>j. 0 \<le> j \<and> j < diffCell \<longrightarrow> sameCellAs cell (tablets ! nat j)"
    and "\<forall>j. diffCell \<le> j \<and> j < sameCell \<longrightarrow> \<not> sameCellAs cell (tablets ! nat j)"
  shows "\<exists>ts m. moveSameCell cell tablets sameCell diffCell = Some (ts, m)
           \<and> length ts = length tablets \<and> mset ts = mset tablets
           \<and> - 1 \<le> m \<and> m < int (length tablets)
           \<and> (\<forall>j. 0 \<le> j \<and> j \<le> m \<longrightarrow> sameCellAs cell (ts ! nat j))
           \<and> ((\<forall>j. m < j \<and> j < int (length tablets) \<longrightarrow> \<not> sameCellAs cell (ts ! nat j))
              \<or> (\<forall>j. 0 \<le> j \<and> j < int (length tablets) \<longrightarrow> sameCellAs cell (ts ! nat j)))"
  using assms
proof (induction cell tablets sameCell diffCell rule: moveSameCell.induct)
  case (1 cell tablets sameCell diffCell)
  let ?n = "int (length tablets)"
  note inv = "1.prems"
  have sc0: "0 \<le> sameCell"
    using inv(1,2) by simp
  obtain s' where s': "nextTablet cell tablets sameCell ?n True = Some s'"
    "s' = - 1 \<and> (\<forall>j. sameCell \<le> j \<and> j < ?n \<longrightarrow> sameCellAs cell (tablets ! nat j) \<noteq> True)
     \<or> sameCell \<le> s' \<and> s' < ?n \<and> sameCellAs cell (tablets ! nat s') = True
       \<and> (\<forall>j. sameCell \<le> j \<and> j < s' \<longrightarrow> sameCellAs cell (tablets ! nat j) \<noteq> True)"
    using nextTablet_spec [OF sc0, of ?n tablets cell True] by auto
  obtain d' where d': "nextTablet cell tablets diffCell ?n False = Some d'"
    "d' = - 1 \<and> (\<forall>j. diffCell \<le> j \<and> j < ?n \<longrightarrow> sameCellAs cell (tablets ! nat j) \<noteq> False)
     \<or> diffCell \<le> d' \<and> d' < ?n \<and> sameCellAs cell (tablets ! nat d') = False
       \<and> (\<forall>j. diffCell \<le> j \<and> j < d' \<longrightarrow> sameCellAs cell (tablets ! nat j) \<noteq> False)"
    using nextTablet_spec [OF inv(1), of ?n tablets cell False] by auto
  show ?case
  proof (cases "s' < 0 \<or> d' < 0")
    case True
    have res: "moveSameCell cell tablets sameCell diffCell = Some (tablets, diffCell - 1)"
      using s'(1) d'(1) True by (simp add: moveSameCell.simps [of cell tablets sameCell diffCell])
    have front: "\<forall>j. 0 \<le> j \<and> j \<le> diffCell - 1 \<longrightarrow> sameCellAs cell (tablets ! nat j)"
      using inv(4) by auto
    have rear: "(\<forall>j. diffCell - 1 < j \<and> j < ?n \<longrightarrow> \<not> sameCellAs cell (tablets ! nat j))
              \<or> (\<forall>j. 0 \<le> j \<and> j < ?n \<longrightarrow> sameCellAs cell (tablets ! nat j))"
    proof (cases "s' < 0")
      case True
      then have "\<forall>j. sameCell \<le> j \<and> j < ?n \<longrightarrow> \<not> sameCellAs cell (tablets ! nat j)"
        using s'(2) sc0 by auto
      then have "\<forall>j. diffCell - 1 < j \<and> j < ?n \<longrightarrow> \<not> sameCellAs cell (tablets ! nat j)"
        using inv(5) by (metis linorder_not_less zle_diff1_eq)
      then show ?thesis by blast
    next
      case False
      then have "d' < 0"
        using True by simp
      then have "\<forall>j. diffCell \<le> j \<and> j < ?n \<longrightarrow> sameCellAs cell (tablets ! nat j)"
        using d'(2) inv(1) by auto
      then have "\<forall>j. 0 \<le> j \<and> j < ?n \<longrightarrow> sameCellAs cell (tablets ! nat j)"
        using inv(4) by (metis linorder_not_less)
      then show ?thesis by blast
    qed
    show ?thesis
      using res front rear inv(1,2,3) by auto
  next
    case False
    then have pos: "0 \<le> s'" "0 \<le> d'"
      by auto
    have sf: "sameCell \<le> s'" "s' < ?n" "sameCellAs cell (tablets ! nat s')"
      "\<forall>j. sameCell \<le> j \<and> j < s' \<longrightarrow> \<not> sameCellAs cell (tablets ! nat j)"
      using s'(2) pos(1) by auto
    have df: "diffCell \<le> d'" "d' < ?n" "\<not> sameCellAs cell (tablets ! nat d')"
      "\<forall>j. diffCell \<le> j \<and> j < d' \<longrightarrow> sameCellAs cell (tablets ! nat j)"
      using d'(2) pos(2) by auto
    have frontA: "\<forall>j. 0 \<le> j \<and> j < d' \<longrightarrow> sameCellAs cell (tablets ! nat j)"
      using inv(4) df(4) by (metis linorder_not_less)
    have midB: "\<forall>j. diffCell \<le> j \<and> j < s' \<longrightarrow> \<not> sameCellAs cell (tablets ! nat j)"
      using inv(5) sf(4) by (metis linorder_not_less)
    show ?thesis
    proof (cases "s' < d'")
      case True
      have res: "moveSameCell cell tablets sameCell diffCell = moveSameCell cell tablets (d' + 1) d'"
        using s'(1) d'(1) False True
        by (simp add: moveSameCell.simps [of cell tablets sameCell diffCell])
      have "\<forall>j. d' \<le> j \<and> j < d' + 1 \<longrightarrow> \<not> sameCellAs cell (tablets ! nat j)"
        using df(3) by (metis zle_add1_eq_le zless_add1_eq less_le_not_le)
      then show ?thesis
        using "1.IH"(1) [OF s'(1) d'(1) False True pos(2) _ _ frontA] df(2) res by simp
    next
      case ge: False
      have "s' \<noteq> d'"
        using sf(3) df(3) by auto
      then have gt: "d' < s'"
        using ge by simp
      obtain ts1 where sw: "swapAt tablets s' d' = Some ts1"
        using swapAt_defined [OF pos(1) sf(2) pos(2) df(2)] by blast
      have len1: "length ts1 = length tablets" and ms1: "mset ts1 = mset tablets"
        using swapAt_result [OF sw] by auto
      have res: "moveSameCell cell tablets sameCell diffCell = moveSameCell cell ts1 (s' + 1) (d' + 1)"
        using s'(1) d'(1) False ge sw
        by (simp add: moveSameCell.simps [of cell tablets sameCell diffCell])
      have front1: "\<forall>j. 0 \<le> j \<and> j < d' + 1 \<longrightarrow> sameCellAs cell (ts1 ! nat j)"
      proof (intro allI impI)
        fix j assume j: "0 \<le> j \<and> j < d' + 1"
        then have "j < ?n"
          using df(2) by simp
        then have "ts1 ! nat j = (if j = d' then tablets ! nat s' else if j = s' then tablets ! nat d'
                                  else tablets ! nat j)"
          using swapAt_nth [OF sw, of j] j by simp
        then show "sameCellAs cell (ts1 ! nat j)"
          using j gt sf(3) frontA by (cases "j = d'") auto
      qed
      have mid1: "\<forall>j. d' + 1 \<le> j \<and> j < s' + 1 \<longrightarrow> \<not> sameCellAs cell (ts1 ! nat j)"
      proof (intro allI impI)
        fix j assume j: "d' + 1 \<le> j \<and> j < s' + 1"
        then have "0 \<le> j" "j < ?n"
          using pos(2) sf(2) by auto
        then have "ts1 ! nat j = (if j = d' then tablets ! nat s' else if j = s' then tablets ! nat d'
                                  else tablets ! nat j)"
          using swapAt_nth [OF sw, of j] by simp
        moreover have "\<not> sameCellAs cell (tablets ! nat j)" if "j \<noteq> s'"
          using that j midB df(1) by auto
        ultimately show "\<not> sameCellAs cell (ts1 ! nat j)"
          using j df(3) by (cases "j = s'") auto
      qed
      have "0 \<le> d' + 1" "d' + 1 \<le> s' + 1" "s' + 1 \<le> int (length ts1)"
        using pos(2) gt sf(2) len1 by auto
      from "1.IH"(2) [OF s'(1) d'(1) False ge sw this front1 mid1]
      show ?thesis
        using res len1 ms1 by simp
    qed
  qed
qed

lemma swap_prefix:
  assumes "i < k" and "j < k" and "k \<le> length xs"
  shows "mset (take k (xs[i := xs ! j, j := xs ! i])) = mset (take k xs)"
    and "drop k (xs[i := xs ! j, j := xs ! i]) = drop k xs"
proof -
  have e: "take k (xs[i := xs ! j, j := xs ! i]) = (take k xs)[i := take k xs ! j, j := take k xs ! i]"
    using assms by (simp add: take_update_swap)
  have "mset ((take k xs)[i := take k xs ! j, j := take k xs ! i]) = mset (take k xs)"
    using assms by (intro mset_swap) simp_all
  then show "mset (take k (xs[i := xs ! j, j := xs ! i])) = mset (take k xs)"
    by (simp only: e)
  show "drop k (xs[i := xs ! j, j := xs ! i]) = drop k xs"
    using assms by (simp add: drop_update_cancel)
qed

lemma swap_suffix:
  assumes "k \<le> i" and "k \<le> j" and "i < length xs" and "j < length xs"
  shows "take k (xs[i := xs ! j, j := xs ! i]) = take k xs"
    and "mset (drop k (xs[i := xs ! j, j := xs ! i])) = mset (drop k xs)"
proof -
  show "take k (xs[i := xs ! j, j := xs ! i]) = take k xs"
    using assms by (simp add: take_update_cancel)
  have "xs ! j = drop k xs ! (j - k)" "xs ! i = drop k xs ! (i - k)"
    using assms by simp_all
  then have e: "drop k (xs[i := xs ! j, j := xs ! i])
          = (drop k xs)[i - k := drop k xs ! (j - k), j - k := drop k xs ! (i - k)]"
    using assms by (simp only: drop_update_swap)
  have "mset ((drop k xs)[i - k := drop k xs ! (j - k), j - k := drop k xs ! (i - k)]) = mset (drop k xs)"
    using assms by (intro mset_swap) simp_all
  then show "mset (drop k (xs[i := xs ! j, j := xs ! i])) = mset (drop k xs)"
    by (simp only: e)
qed

lemma rand_Intn_range:
  assumes "0 < n"
  shows "\<exists>r w'. rand_Intn src n w = Some (r, w') \<and> 0 \<le> r \<and> r < n"
proof -
  have "fst (src w) mod nat n < nat n"
    using assms by simp
  then have "int (fst (src w) mod nat n) < n"
    by linarith
  then show ?thesis
    using assms by (simp add: rand_Intn_def)
qed

lemma shuffleSameCell_spec:
  assumes "i < int k" and "k \<le> length tablets"
  shows "\<exists>ts w'. shuffleSameCell src tablets i w = Some (ts, w')
           \<and> length ts = length tablets
           \<and> mset (take k ts) = mset (take k tablets) \<and> drop k ts = drop k tablets"
  using assms
proof (induction src tablets i w rule: shuffleSameCell.induct)
  case (1 src tablets i w)
  show ?case
  proof (cases "0 < i")
    case False
    then show ?thesis
      by (simp add: shuffleSameCell.simps [of src tablets i w])
  next
    case True
    obtain r w1 where r: "rand_Intn src (i + 1) w = Some (r, w1)" "0 \<le> r" "r < i + 1"
      using rand_Intn_range [of "i + 1" src w] True by auto
    have bounds: "0 \<le> i" "i < int (length tablets)" "r < int (length tablets)"
      using True "1.prems" r(3) by auto
    obtain ts1 where sw: "swapAt tablets i r = Some ts1"
      using swapAt_defined [OF bounds(1,2) r(2) bounds(3)] by blast
    have ts1: "ts1 = tablets[nat i := tablets ! nat r, nat r := tablets ! nat i]"
      "length ts1 = length tablets"
      using swapAt_result [OF sw] by auto
    have "nat i < k" "nat r < k"
      using "1.prems"(1) r(3) True by auto
    then have keep: "mset (take k ts1) = mset (take k tablets)" "drop k ts1 = drop k tablets"
      using swap_prefix [of "nat i" k "nat r" tablets] "1.prems"(2) ts1(1) by auto
    have "i - 1 < int k" "k \<le> length ts1"
      using "1.prems" ts1(2) by auto
    from "1.IH" [OF True r(1) refl sw this]
    obtain ts w' where "shuffleSameCell src ts1 (i - 1) w1 = Some (ts, w')"
      "length ts = length ts1" "mset (take k ts) = mset (take k ts1)" "drop k ts = drop k ts1"
      by blast
    then show ?thesis
      using True r(1) sw keep ts1(2) by (simp add: shuffleSameCell.simps [of src tablets i w])
  qed
qed

lemma shuffleDiffCell_spec:
  assumes "diffCellMin = sameCellMax + 1" and "int k = diffCellMin" and "i < int (length tablets)"
  shows "\<exists>ts w'. shuffleDiffCell src tablets sameCellMax diffCellMin i w = Some (ts, w')
           \<and> length ts = length tablets
           \<and> take k ts = take k tablets \<and> mset (drop k ts) = mset (drop k tablets)"
  using assms
proof (induction src tablets sameCellMax diffCellMin i w rule: shuffleDiffCell.induct)
  case (1 src tablets sameCellMax diffCellMin i w)
  show ?case
  proof (cases "diffCellMin < i")
    case False
    then show ?thesis
      by (simp add: shuffleDiffCell.simps [of src tablets sameCellMax diffCellMin i w])
  next
    case True
    obtain r w1 where r: "rand_Intn src (i - sameCellMax) w = Some (r, w1)" "0 \<le> r" "r < i - sameCellMax"
      using rand_Intn_range [of "i - sameCellMax" src w] True "1.prems"(1) by auto
    have bounds: "0 \<le> i" "i < int (length tablets)" "0 \<le> r + diffCellMin"
      "r + diffCellMin < int (length tablets)"
      using True "1.prems" r(2,3) by auto
    obtain ts1 where sw: "swapAt tablets i (r + diffCellMin) = Some ts1"
      using swapAt_defined [OF bounds] by blast
    have ts1: "ts1 = tablets[nat i := tablets ! nat (r + diffCellMin),
                            nat (r + diffCellMin) := tablets ! nat i]"
      "length ts1 = length tablets"
      using swapAt_result [OF sw] by auto
    have "k \<le> nat i" "k \<le> nat (r + diffCellMin)" "nat i < length tablets"
      "nat (r + diffCellMin) < length tablets"
      using "1.prems" r(2) True bounds by auto
    then have keep: "take k ts1 = take k tablets" "mset (drop k ts1) = mset (drop k tablets)"
      using swap_suffix [of k "nat i" "nat (r + diffCellMin)" tablets] ts1(1) by auto
    have "i - 1 < int (length ts1)"
      using "1.prems" ts1(2) by auto
    from "1.IH" [OF True r(1) refl sw "1.prems"(1,2) this]
    obtain ts w' where "shuffleDiffCell src ts1 sameCellMax diffCellMin (i - 1) w1 = Some (ts, w')"
      "length ts = length ts1" "take k ts = take k ts1" "mset (drop k ts) = mset (drop k ts1)"
      by blast
    then show ?thesis
      using True r(1) sw keep ts1(2)
      by (simp add: shuffleDiffCell.simps [of src tablets sameCellMax diffCellMin i w])
  qed
qed

lemma split_sets:
  assumes "mset (take k a) = mset (take k b)" and "mset (drop k a) = mset (drop k b)"
  shows "set (take k a) = set (take k b)" and "set (drop k a) = set (drop k b)"
    and "mset a = mset b"
proof -
  show "set (take k a) = set (take k b)" "set (drop k a) = set (drop k b)"
    using assms by (auto dest: mset_eq_setD)
  have "mset a = mset (take k a) + mset (drop k a)" "mset b = mset (take k b) + mset (drop k b)"
    by (metis append_take_drop_id mset_append)+
  then show "mset a = mset b"
    using assms by simp
qed

lemma partition_index:
  assumes "\<forall>x \<in> set (take k r). P x" and "\<forall>x \<in> set (drop k r). \<not> P x"
    and "i < length r" and "j < length r" and "P (r ! i)" and "\<not> P (r ! j)"
  shows "i < j"
proof -
  have "i < k"
  proof (rule ccontr)
    assume "\<not> i < k"
    then have "r ! i = drop k r ! (i - k)" "i - k < length (drop k r)"
      using assms(3) by auto
    then have "r ! i \<in> set (drop k r)"
      by (metis nth_mem)
    then show False
      using assms(2,5) by blast
  qed
  moreover have "k \<le> j"
  proof (rule ccontr)
    assume "\<not> k \<le> j"
    then have "r ! j = take k r ! j" "j < length (take k r)"
      using assms(4) by auto
    then have "r ! j \<in> set (take k r)"
      by (metis nth_mem)
    then show False
      using assms(1,6) by blast
  qed
  ultimately show ?thesis by simp
qed

lemma shuffleTablets_spec:
  "\<exists>shuffled w' k. shuffleTablets src cell tablets w = Some (shuffled, w')
      \<and> mset shuffled = mset tablets
      \<and> (\<forall>x \<in> set (take k shuffled). sameCellAs cell x)
      \<and> ((\<forall>x \<in> set (drop k shuffled). \<not> sameCellAs cell x)
           \<or> (\<forall>x \<in> set shuffled. sameCellAs cell x))"
proof -
  let ?n = "int (length tablets)"
  have "\<exists>ts m. moveSameCell cell tablets 0 0 = Some (ts, m)
           \<and> length ts = length tablets \<and> mset ts = mset tablets
           \<and> - 1 \<le> m \<and> m < int (length tablets)
           \<and> (\<forall>j. 0 \<le> j \<and> j \<le> m \<longrightarrow> sameCellAs cell (ts ! nat j))
           \<and> ((\<forall>j. m < j \<and> j < int (length tablets) \<longrightarrow> \<not> sameCellAs cell (ts ! nat j))
              \<or> (\<forall>j. 0 \<le> j \<and> j < int (length tablets) \<longrightarrow> sameCellAs cell (ts ! nat j)))"
    by (rule moveSameCell_spec) auto
  then obtain ts1 m where mv: "moveSameCell cell tablets 0 0 = Some (ts1, m)"
    "length ts1 = length tablets" "mset ts1 = mset tablets" "- 1 \<le> m" "m < ?n"
    "\<forall>j. 0 \<le> j \<and> j \<le> m \<longrightarrow> sameCellAs cell (ts1 ! nat j)"
    "(\<forall>j. m < j \<and> j < ?n \<longrightarrow> \<not> sameCellAs cell (ts1 ! nat j))
       \<or> (\<forall>j. 0 \<le> j \<and> j < ?n \<longrightarrow> sameCellAs cell (ts1 ! nat j))"
    by blast
  define k where "k = nat (m + 1)"
  have k: "int k = m + 1" "k \<le> length ts1"
    using mv(2,4,5) by (auto simp: k_def)
  have front1: "\<forall>x \<in> set (take k ts1). sameCellAs cell x"
  proof
    fix x assume "x \<in> set (take k ts1)"
    then obtain n where n: "n < length (take k ts1)" "x = take k ts1 ! n"
      by (metis in_set_conv_nth)
    then have "n < k" "x = ts1 ! n"
      by auto
    then show "sameCellAs cell x"
      using mv(6) k(1) by (metis nat_int of_nat_0_le_iff zle_add1_eq_le zless_add1_eq
          add.commute less_le_not_le of_nat_less_iff zless_imp_add1_zle)
  qed
  have rear1: "(\<forall>x \<in> set (drop k ts1). \<not> sameCellAs cell x) \<or> (\<forall>x \<in> set ts1. sameCellAs cell x)"
    using mv(7)
  proof
    assume a: "\<forall>j. m < j \<and> j < ?n \<longrightarrow> \<not> sameCellAs cell (ts1 ! nat j)"
    have "\<not> sameCellAs cell x" if "x \<in> set (drop k ts1)" for x
    proof -
      from that obtain n where n: "n < length (drop k ts1)" "x = drop k ts1 ! n"
        by (metis in_set_conv_nth)
      then have "x = ts1 ! (k + n)" "k + n < length ts1"
        by auto
      moreover have "m < int (k + n)"
        using k(1) by simp
      ultimately show ?thesis
        using a mv(2) by (metis nat_int of_nat_less_iff)
    qed
    then show ?thesis by blast
  next
    assume a: "\<forall>j. 0 \<le> j \<and> j < ?n \<longrightarrow> sameCellAs cell (ts1 ! nat j)"
    have "sameCellAs cell x" if "x \<in> set ts1" for x
    proof -
      from that obtain n where "n < length ts1" "x = ts1 ! n"
        by (metis in_set_conv_nth)
      then show ?thesis
        using a mv(2) by (metis nat_int of_nat_0_le_iff of_nat_less_iff)
    qed
    then show ?thesis by blast
  qed
  obtain ts2 w2 where s2: "shuffleSameCell src ts1 m w = Some (ts2, w2)"
    "length ts2 = length ts1" "mset (take k ts2) = mset (take k ts1)" "drop k ts2 = drop k ts1"
    using shuffleSameCell_spec [of m k ts1 src w] k by auto
  have sets2: "set (take k ts2) = set (take k ts1)" "set (drop k ts2) = set (drop k ts1)"
    "mset ts2 = mset ts1"
    using split_sets [of k ts2 ts1] s2(3,4) by auto
  have "int (length tablets) - 1 < int (length ts2)"
    using s2(2) mv(2) by simp
  then obtain ts3 w3 where s3:
    "shuffleDiffCell src ts2 m (m + 1) (int (length tablets) - 1) w2 = Some (ts3, w3)"
    "length ts3 = length ts2" "take k ts3 = take k ts2" "mset (drop k ts3) = mset (drop k ts2)"
    using shuffleDiffCell_spec [of "m + 1" m k "int (length tablets) - 1" ts2 src w2] k(1) by auto
  have sets3: "set (take k ts3) = set (take k ts2)" "set (drop k ts3) = set (drop k ts2)"
    "mset ts3 = mset ts2"
    using split_sets [of k ts3 ts2] s3(3,4) by auto
  have "set ts3 = set ts1"
    using sets2(3) sets3(3) by (metis mset_eq_setD)
  then have "(\<forall>x \<in> set (drop k ts3). \<not> sameCellAs cell x) \<or> (\<forall>x \<in> set ts3. sameCellAs cell x)"
    using rear1 sets2(2) sets3(2) by simp
  moreover have "\<forall>x \<in> set (take k ts3). sameCellAs cell x"
    using front1 sets2(1) sets3(1) by simp
  moreover have "shuffleTablets src cell tablets w = Some (ts3, w3)"
    using mv(1) s2(1) s3(1) by (simp add: shuffleTablets_def)
  moreover have "mset ts3 = mset tablets"
    using sets3(3) sets2(3) mv(3) by simp
  ultimately show ?thesis by blast
qed

text \<open>
  C5. For every list of tablets, every local cell and every behaviour of the random source,
  \<open>shuffleTablets\<close> returns (it does not panic) a permutation of the list in which every
  tablet of the local cell stands before every tablet of another cell.
\<close>

theorem C5_shuffleTablets:
  "\<exists>shuffled w'. shuffleTablets src cell tablets w = Some (shuffled, w')
      \<and> mset shuffled = mset tablets
      \<and> (\<forall>i j. i < length shuffled \<and> j < length shuffled
                \<and> sameCellAs cell (shuffled ! i) \<and> \<not> sameCellAs cell (shuffled ! j)
              \<longrightarrow> i < j)"
proof -
  obtain shuffled w' k where h: "shuffleTablets src cell tablets w = Some (shuffled, w')"
    "mset shuffled = mset tablets"
    "\<forall>x \<in> set (take k shuffled). sameCellAs cell x"
    "(\<forall>x \<in> set (drop k shuffled). \<not> sameCellAs cell x) \<or> (\<forall>x \<in> set shuffled. sameCellAs cell x)"
    using shuffleTablets_spec [of src cell tablets w] by blast
  have "i < j"
    if "i < length shuffled" "j < length shuffled"
      "sameCellAs cell (shuffled ! i)" "\<not> sameCellAs cell (shuffled ! j)" for i j
    using h(4)
  proof
    assume "\<forall>x \<in> set (drop k shuffled). \<not> sameCellAs cell x"
    then show ?thesis
      using partition_index [of k shuffled "sameCellAs cell" i j] h(3) that by blast
  next
    assume "\<forall>x \<in> set shuffled. sameCellAs cell x"
    then show ?thesis
      using that(2,4) by (metis nth_mem)
  qed
  then show ?thesis
    using h(1,2) by blast
qed

theorem C5_shuffleTablets_witness:
  "shuffleTablets (\<lambda>w. (w, Suc w)) ''a'' threeReplicas (5 :: nat)
     = Some ([tabletIn ''a'' ''r2'' REPLICA, tabletIn ''a'' ''r3'' REPLICA, tabletIn ''b'' ''r1'' REPLICA], 6)
   \<and> (0 :: nat) < length [tabletIn ''a'' ''r2'' REPLICA, tabletIn ''a'' ''r3'' REPLICA, tabletIn ''b'' ''r1'' REPLICA]
   \<and> (2 :: nat) < length [tabletIn ''a'' ''r2'' REPLICA, tabletIn ''a'' ''r3'' REPLICA, tabletIn ''b'' ''r1'' REPLICA]
   \<and> sameCellAs ''a'' ([tabletIn ''a'' ''r2'' REPLICA, tabletIn ''a'' ''r3'' REPLICA, tabletIn ''b'' ''r1'' REPLICA] ! 0)
   \<and> \<not> sameCellAs ''a'' ([tabletIn ''a'' ''r2'' REPLICA, tabletIn ''a'' ''r3'' REPLICA, tabletIn ''b'' ''r1'' REPLICA] ! 2)
   \<and> (0 :: nat) < 2"
  using C5_shuffleTablets [of "\<lambda>w. (w, Suc w)" "''a''" threeReplicas "5 :: nat"]
  by (simp add: scenario_simps sameCellAs_def)

subsection \<open>Every candidate is invalid\<close>

lemma shuffleTablets_perm:
  "\<exists>shuffled w'. shuffleTablets src cell tablets w = Some (shuffled, w')
      \<and> mset shuffled = mset tablets"
  using shuffleTablets_spec [of src cell tablets w] by blast

lemma attempt_no_candidate:
  assumes "bufferStep dg pkg target inTransaction s = (False, s1)"
    and "healthySnapshot dg pkg target s1 = (tablets, s2)"
    and "tablets \<noteq> []"
    and "\<forall>t \<in> set tablets. invalidTablets s (Key t) \<noteq> None"
  shows "\<exists>s'. attempt dg pkg target inTransaction inner s = (Break, s')
           \<and> err s' = Some (case err s of None \<Rightarrow> errNoAvailableConnection | Some e \<Rightarrow> e)
           \<and> calls s' = calls s2"
proof -
  obtain shuffled w3 where sh:
    "shuffleTablets (rand_src pkg) (localCell dg) tablets (world s2) = Some (shuffled, w3)"
    "mset shuffled = mset tablets"
    using shuffleTablets_perm [of "rand_src pkg" "localCell dg" tablets "world s2"] by blast
  have inv: "invalidTablets s2 = invalidTablets s" and e: "err s2 = err s"
    using bufferStep_log [OF assms(1)] healthySnapshot_log [OF assms(2)] by auto
  have "set shuffled = set tablets"
    using sh(2) by (rule mset_eq_setD)
  then have "find (\<lambda>t. invalidTablets s2 (Key t) = None) shuffled = None"
    using assms(4) inv by (simp add: find_None_iff)
  then show ?thesis
    using assms(1,2,3) sh(1) e by (cases "err s") (simp_all add: attempt_def)
qed

text \<open>
  C4, as the claim states it, fails. With \<open>retryCount = 2\<close>, three distinct healthy
  tablets and an action that reports a retryable ABORTED error (code 10) each time, the
  loop has three iterations and no fourth: the snapshot is taken three times, the action
  runs three times, and the call returns the action's last error wrapped by
  \<open>NewShardError\<close>, whose code is not UNAVAILABLE.
\<close>

theorem C4_counterexample:
  "retryCount (gatewayWith 2 [] threeReplicas [] (None, None)) = 2
   \<and> length (filter isInner (log (withRetry (gatewayWith 2 [] threeReplicas [] (None, None))
        (packageWith False []) (targetOf REPLICA) False alwaysRetry 0))) = 3
   \<and> length (filter isTablets (log (withRetry (gatewayWith 2 [] threeReplicas [] (None, None))
        (packageWith False []) (targetOf REPLICA) False alwaysRetry 0))) = 3
   \<and> returned (withRetry (gatewayWith 2 [] threeReplicas [] (None, None))
        (packageWith False []) (targetOf REPLICA) False alwaysRetry 0)
      = NewShardError (packageWith False []) (Some (Foreign (OtherCode 10, ''aborted'')))
          (targetOf REPLICA)
   \<and> map_option (vterrors_Code fst)
        (returned (withRetry (gatewayWith 2 [] threeReplicas [] (None, None))
           (packageWith False []) (targetOf REPLICA) False alwaysRetry 0))
      = Some (OtherCode 10)
   \<and> OtherCode 10 \<noteq> UNAVAILABLE"
  by (simp add: scenario_simps)

text \<open>
  C4, amended. When an attempt finds every tablet of its snapshot marked invalid for the
  request, the loop ends there, with no call of the health check or of the action, and
  \<open>err\<close> is the error left by the attempt before if there is one, and the UNAVAILABLE error
  "no available connection" only if there is none. When the attempt of the last iteration
  asks for a retry, the loop ends with the error of that attempt: with \<open>retryCount = 2\<close> a
  third retryable attempt is the last. In both cases the call returns \<open>NewShardError\<close> of
  that error and the target (the wrapping with the target metadata).
\<close>

theorem C4_all_candidates_invalid:
  assumes "sint i < sint (retryCount dg + 1)"
  shows "(bufferStep dg pkg target inTransaction s = (False, s1)
          \<and> healthySnapshot dg pkg target s1 = (tablets, s2)
          \<and> tablets \<noteq> [] \<and> (\<forall>t \<in> set tablets. invalidTablets s (Key t) \<noteq> None)
          \<longrightarrow> (\<exists>s'. withRetry_loop dg pkg target inTransaction inner i s = (False, s')
                \<and> err s' = Some (case err s of None \<Rightarrow> errNoAvailableConnection | Some e \<Rightarrow> e)
                \<and> calls s' = calls s2))
         \<and> (\<not> sint (i + 1) < sint (retryCount dg + 1)
            \<and> attempt dg pkg target inTransaction inner s = (Continue, s3)
          \<longrightarrow> withRetry_loop dg pkg target inTransaction inner i s = (False, s3))
         \<and> returned (withRetry_attempts dg pkg target inTransaction inner w)
           = (if panicked (withRetry_attempts dg pkg target inTransaction inner w) then None
              else NewShardError pkg
                     (err (snd (withRetry_loop dg pkg target inTransaction inner 0 (initialVars w))))
                     target)"
proof (intro conjI impI)
  assume a: "bufferStep dg pkg target inTransaction s = (False, s1)
          \<and> healthySnapshot dg pkg target s1 = (tablets, s2)
          \<and> tablets \<noteq> [] \<and> (\<forall>t \<in> set tablets. invalidTablets s (Key t) \<noteq> None)"
  then obtain s' where "attempt dg pkg target inTransaction inner s = (Break, s')"
    "err s' = Some (case err s of None \<Rightarrow> errNoAvailableConnection | Some e \<Rightarrow> e)"
    "calls s' = calls s2"
    using attempt_no_candidate [of dg pkg target inTransaction s s1 tablets s2 inner] by blast
  then show "\<exists>s'. withRetry_loop dg pkg target inTransaction inner i s = (False, s')
                \<and> err s' = Some (case err s of None \<Rightarrow> errNoAvailableConnection | Some e \<Rightarrow> e)
                \<and> calls s' = calls s2"
    using assms by (simp add: withRetry_loop.simps [of dg pkg target inTransaction inner i s])
next
  assume "\<not> sint (i + 1) < sint (retryCount dg + 1)
            \<and> attempt dg pkg target inTransaction inner s = (Continue, s3)"
  then show "withRetry_loop dg pkg target inTransaction inner i s = (False, s3)"
    using assms
    by (simp add: withRetry_loop.simps [of dg pkg target inTransaction inner i s]
        withRetry_loop.simps [of dg pkg target inTransaction inner "i + 1" s3])
next
  show "returned (withRetry_attempts dg pkg target inTransaction inner w)
           = (if panicked (withRetry_attempts dg pkg target inTransaction inner w) then None
              else NewShardError pkg
                     (err (snd (withRetry_loop dg pkg target inTransaction inner 0 (initialVars w))))
                     target)"
    by (simp add: withRetry_attempts_result)
qed

theorem C4_all_candidates_invalid_witness:
  "(sint (3 :: 64 word) < sint (retryCount (gatewayWith 3 [] threeReplicas [] (None, None)) + 1)
    \<and> bufferStep (gatewayWith 3 [] threeReplicas [] (None, None)) (packageWith False [])
         (targetOf REPLICA) False afterThreeRetries = (False, afterThreeRetries)
    \<and> fst (healthySnapshot (gatewayWith 3 [] threeReplicas [] (None, None)) (packageWith False [])
         (targetOf REPLICA) afterThreeRetries) = threeReplicas
    \<and> threeReplicas \<noteq> []
    \<and> list_all (\<lambda>t. invalidTablets afterThreeRetries (Key t) \<noteq> None) threeReplicas
    \<and> (\<exists>s'. withRetry_loop (gatewayWith 3 [] threeReplicas [] (None, None)) (packageWith False [])
               (targetOf REPLICA) False alwaysRetry 3 afterThreeRetries = (False, s')
             \<and> err s' = Some (Foreign (OtherCode 10, ''aborted''))))
   \<and> (sint (2 :: 64 word) < sint (retryCount (gatewayWith 2 [] threeReplicas [] (None, None)) + 1)
    \<and> \<not> sint (2 + 1 :: 64 word) < sint (retryCount (gatewayWith 2 [] threeReplicas [] (None, None)) + 1)
    \<and> fst (attempt (gatewayWith 2 [] threeReplicas [] (None, None)) (packageWith False [])
              (targetOf REPLICA) False alwaysRetry (initialVars 0)) = Continue
    \<and> withRetry_loop (gatewayWith 2 [] threeReplicas [] (None, None)) (packageWith False [])
         (targetOf REPLICA) False alwaysRetry 2 (initialVars 0)
       = (False, snd (attempt (gatewayWith 2 [] threeReplicas [] (None, None)) (packageWith False [])
              (targetOf REPLICA) False alwaysRetry (initialVars 0))))"
proof -
  have a: "sint (3 :: 64 word) < sint (retryCount (gatewayWith 3 [] threeReplicas [] (None, None)) + 1)"
    by (simp add: gatewayWith_def)
  have b: "sint (2 :: 64 word) < sint (retryCount (gatewayWith 2 [] threeReplicas [] (None, None)) + 1)"
    by (simp add: gatewayWith_def)
  show ?thesis
    using C4_all_candidates_invalid [OF a, of "packageWith False []" "targetOf REPLICA" False
        afterThreeRetries afterThreeRetries threeReplicas
        "snd (healthySnapshot (gatewayWith 3 [] threeReplicas [] (None, None)) (packageWith False [])
               (targetOf REPLICA) afterThreeRetries)" alwaysRetry, THEN conjunct1]
      C4_all_candidates_invalid [OF b, of "packageWith False []" "targetOf REPLICA" False
        "initialVars 0" _ _ _ alwaysRetry
        "snd (attempt (gatewayWith 2 [] threeReplicas [] (None, None)) (packageWith False [])
              (targetOf REPLICA) False alwaysRetry (initialVars 0))", THEN conjunct2, THEN conjunct1]
    by (auto simp: scenario_simps afterThreeRetries_def)
qed

subsection \<open>REPLICA queries on RDONLY tablets\<close>

lemma loop_after_attempt:
  assumes "sint i < sint (retryCount dg + 1)"
    and "attempt dg pkg target inTransaction inner s = (f, s1)"
  shows "\<exists>more. calls (snd (withRetry_loop dg pkg target inTransaction inner i s)) = calls s1 @ more"
proof (cases f)
  case Continue
  then have "withRetry_loop dg pkg target inTransaction inner i s
               = withRetry_loop dg pkg target inTransaction inner (i + 1) s1"
    using assms by (simp add: withRetry_loop.simps [of dg pkg target inTransaction inner i s])
  then show ?thesis
    using loop_inner_count [of dg pkg target inTransaction inner "i + 1" s1] by auto
next
  case Break
  then show ?thesis
    using assms by (simp add: withRetry_loop.simps [of dg pkg target inTransaction inner i s])
next
  case Panic
  then show ?thesis
    using assms by (simp add: withRetry_loop.simps [of dg pkg target inTransaction inner i s])
qed

lemma healthySnapshot_rdonly:
  assumes "routeReplicaToRdonly pkg" and "TabletType target = REPLICA"
    and "tsc_GetHealthyTabletStats dg (Keyspace target) (Shard target) REPLICA (world s) = (replicas, w1)"
    and "tsc_GetHealthyTabletStats dg (Keyspace target) (Shard target) RDONLY w1 = (rdonly, w2)"
  shows "healthySnapshot dg pkg target s
           = (replicas @ rdonly,
              s\<lparr>world := w2,
                calls := calls s @ [EvGetHealthyTabletStats (Keyspace target) (Shard target) REPLICA,
                                    EvGetHealthyTabletStats (Keyspace target) (Shard target) RDONLY,
                                    EvTablets (replicas @ rdonly)]\<rparr>)"
  using assms by (simp add: healthySnapshot_def)

lemma execute_first:
  assumes "execute dg pkg target inner ts s = (f, s1)"
  shows "\<exists>T. calls s1 = calls s @ EvGetConnection (Key ts) # T
           \<and> (\<forall>c. fst (hc_GetConnection dg (Key ts) (world s)) = Some c \<longrightarrow>
                 (\<exists>canRetry T'. T = EvInner (Target ts) c canRetry # T'))"
  using assms
  by (auto simp: execute_def Let_def split: if_splits prod.splits option.splits)

text \<open>
  C6. With the flag \<open>gateway_route_replica_to_rdonly\<close> set and a REPLICA target, the
  snapshot of every attempt is the healthy REPLICA tablets followed by the healthy RDONLY
  tablets of the target's keyspace and shard. So when the type is allowed, the loop has an
  iteration, the cache has no healthy REPLICA tablet and some healthy RDONLY tablets, the
  first tablet \<open>withRetry\<close> selects (the key it asks the health check for) is one of the
  RDONLY tablets; and where the health check has a connection for every key, the action
  runs on that tablet.
\<close>

theorem C6_replica_routes_to_rdonly:
  fixes dg :: "('w, 'c, 'e) DiscoveryGateway"
  assumes "routeReplicaToRdonly pkg" and "TabletType target = REPLICA"
  shows "fst (healthySnapshot dg pkg target s)
           = fst (tsc_GetHealthyTabletStats dg (Keyspace target) (Shard target) REPLICA (world s))
             @ fst (tsc_GetHealthyTabletStats dg (Keyspace target) (Shard target) RDONLY
                      (snd (tsc_GetHealthyTabletStats dg (Keyspace target) (Shard target) REPLICA
                              (world s))))
    \<and> (checkAllowedTabletTypes pkg target = None \<and> 0 < sint (retryCount dg + 1)
         \<and> tsc_GetHealthyTabletStats dg (Keyspace target) (Shard target) REPLICA w = ([], w1)
         \<and> tsc_GetHealthyTabletStats dg (Keyspace target) (Shard target) RDONLY w1 = (rdonly, w2)
         \<and> rdonly \<noteq> []
         \<longrightarrow> (\<exists>t \<in> set rdonly. \<exists>rest.
                 log (withRetry dg pkg target inTransaction inner w)
                   = [EvGetHealthyTabletStats (Keyspace target) (Shard target) REPLICA,
                      EvGetHealthyTabletStats (Keyspace target) (Shard target) RDONLY,
                      EvTablets rdonly,
                      EvGetConnection (Key t)] @ rest
                 \<and> ((\<forall>key w'. fst (hc_GetConnection dg key w') \<noteq> None) \<longrightarrow>
                      (\<exists>c canRetry rest'. rest = EvInner (Target t) c canRetry # rest'))))"
proof (rule conjI)
  show "fst (healthySnapshot dg pkg target s)
           = fst (tsc_GetHealthyTabletStats dg (Keyspace target) (Shard target) REPLICA (world s))
             @ fst (tsc_GetHealthyTabletStats dg (Keyspace target) (Shard target) RDONLY
                      (snd (tsc_GetHealthyTabletStats dg (Keyspace target) (Shard target) REPLICA
                              (world s))))"
    using assms by (simp add: healthySnapshot_def split: prod.split)
  show "checkAllowedTabletTypes pkg target = None \<and> 0 < sint (retryCount dg + 1)
         \<and> tsc_GetHealthyTabletStats dg (Keyspace target) (Shard target) REPLICA w = ([], w1)
         \<and> tsc_GetHealthyTabletStats dg (Keyspace target) (Shard target) RDONLY w1 = (rdonly, w2)
         \<and> rdonly \<noteq> []
         \<longrightarrow> (\<exists>t \<in> set rdonly. \<exists>rest.
                 log (withRetry dg pkg target inTransaction inner w)
                   = [EvGetHealthyTabletStats (Keyspace target) (Shard target) REPLICA,
                      EvGetHealthyTabletStats (Keyspace target) (Shard target) RDONLY,
                      EvTablets rdonly,
                      EvGetConnection (Key t)] @ rest
                 \<and> ((\<forall>key w'. fst (hc_GetConnection dg key w') \<noteq> None) \<longrightarrow>
                      (\<exists>c canRetry rest'. rest = EvInner (Target t) c canRetry # rest')))"
  proof (intro impI, elim conjE)
    assume h: "checkAllowedTabletTypes pkg target = None" "0 < sint (retryCount dg + 1)"
      "tsc_GetHealthyTabletStats dg (Keyspace target) (Shard target) REPLICA w = ([], w1)"
      "tsc_GetHealthyTabletStats dg (Keyspace target) (Shard target) RDONLY w1 = (rdonly, w2)"
      "rdonly \<noteq> []"
    let ?s0 = "initialVars w :: ('w, 'c, 'e) vars"
    let ?s2 = "?s0\<lparr>world := w2,
                calls := calls ?s0 @ [EvGetHealthyTabletStats (Keyspace target) (Shard target) REPLICA,
                                    EvGetHealthyTabletStats (Keyspace target) (Shard target) RDONLY,
                                    EvTablets ([] @ rdonly)]\<rparr>"
    have b: "bufferStep dg pkg target inTransaction ?s0 = (False, ?s0)"
      using assms(2) by (simp add: bufferStep_def)
    have sn: "healthySnapshot dg pkg target ?s0 = ([] @ rdonly, ?s2)"
      using h(3,4) by (intro healthySnapshot_rdonly [OF assms]) (simp_all add: initialVars_def)
    obtain shuffled w3 where sh:
      "shuffleTablets (rand_src pkg) (localCell dg) rdonly (world ?s2) = Some (shuffled, w3)"
      "mset shuffled = mset rdonly"
      using shuffleTablets_perm [of "rand_src pkg" "localCell dg" rdonly "world ?s2"] by blast
    have "shuffled \<noteq> []"
      using sh(2) h(5) by auto
    then obtain t tl where st: "shuffled = t # tl"
      by (cases shuffled) auto
    have tin: "t \<in> set rdonly"
      using sh(2) st by (metis list.set_intros(1) mset_eq_setD)
    have fnd: "find (\<lambda>t. invalidTablets ?s2 (Key t) = None) shuffled = Some t"
      using st by (simp add: initialVars_def)
    obtain f s4 where ex: "execute dg pkg target inner t (?s2\<lparr>world := w3\<rparr>) = (f, s4)"
      by (cases "execute dg pkg target inner t (?s2\<lparr>world := w3\<rparr>)")
    have at: "attempt dg pkg target inTransaction inner ?s0 = (f, s4)"
      using b sn sh(1) fnd ex h(5) by (simp add: attempt_def)
    obtain T where T: "calls s4 = calls (?s2\<lparr>world := w3\<rparr>) @ EvGetConnection (Key t) # T"
      "\<forall>c. fst (hc_GetConnection dg (Key t) (world (?s2\<lparr>world := w3\<rparr>))) = Some c \<longrightarrow>
                 (\<exists>canRetry T'. T = EvInner (Target t) c canRetry # T')"
      using execute_first [OF ex] by blast
    have "sint (0 :: 64 word) < sint (retryCount dg + 1)"
      using h(2) by simp
    from loop_after_attempt [OF this at]
    obtain more where more:
      "calls (snd (withRetry_loop dg pkg target inTransaction inner 0 ?s0)) = calls s4 @ more"
      by blast
    let ?rest = "T @ more @ replicate (length (deferred (snd (withRetry_loop dg pkg target
                    inTransaction inner 0 ?s0)))) EvRetryDone"
    have lg: "log (withRetry dg pkg target inTransaction inner w)
           = [EvGetHealthyTabletStats (Keyspace target) (Shard target) REPLICA,
              EvGetHealthyTabletStats (Keyspace target) (Shard target) RDONLY,
              EvTablets rdonly,
              EvGetConnection (Key t)] @ ?rest"
      using h(1) more T(1) by (simp add: withRetry_def withRetry_attempts_log initialVars_def)
    have "\<exists>c canRetry rest'. ?rest = EvInner (Target t) c canRetry # rest'"
      if "\<forall>key w'. fst (hc_GetConnection dg key w') \<noteq> None"
    proof -
      have "fst (hc_GetConnection dg (Key t) (world (?s2\<lparr>world := w3\<rparr>))) \<noteq> None"
        by (rule that [rule_format])
      then obtain c where "fst (hc_GetConnection dg (Key t) (world (?s2\<lparr>world := w3\<rparr>))) = Some c"
        by (auto simp only: not_None_eq)
      then have "\<exists>canRetry T'. T = EvInner (Target t) c canRetry # T'"
        by (rule T(2) [rule_format])
      then obtain canRetry T' where "T = EvInner (Target t) c canRetry # T'"
        by (elim exE)
      then show ?thesis
        by (intro exI [of _ c] exI [of _ canRetry] exI [of _ "T' @ more @ replicate (length (deferred (snd (withRetry_loop dg pkg target
                    inTransaction inner 0 ?s0)))) EvRetryDone"]) (simp only: append_Cons)
    qed
    then have imp: "(\<forall>key w'. fst (hc_GetConnection dg key w') \<noteq> None) \<longrightarrow>
                      (\<exists>c canRetry rest'. ?rest = EvInner (Target t) c canRetry # rest')"
      by (rule impI)
    show "\<exists>t \<in> set rdonly. \<exists>rest.
                 log (withRetry dg pkg target inTransaction inner w)
                   = [EvGetHealthyTabletStats (Keyspace target) (Shard target) REPLICA,
                      EvGetHealthyTabletStats (Keyspace target) (Shard target) RDONLY,
                      EvTablets rdonly,
                      EvGetConnection (Key t)] @ rest
                 \<and> ((\<forall>key w'. fst (hc_GetConnection dg key w') \<noteq> None) \<longrightarrow>
                      (\<exists>c canRetry rest'. rest = EvInner (Target t) c canRetry # rest'))"
    proof (rule bexI [OF _ tin], rule exI [of _ ?rest], rule conjI)
      show "log (withRetry dg pkg target inTransaction inner w)
           = [EvGetHealthyTabletStats (Keyspace target) (Shard target) REPLICA,
              EvGetHealthyTabletStats (Keyspace target) (Shard target) RDONLY,
              EvTablets rdonly,
              EvGetConnection (Key t)] @ ?rest"
        by (rule lg)
      show "(\<forall>key w'. fst (hc_GetConnection dg key w') \<noteq> None) \<longrightarrow>
                      (\<exists>c canRetry rest'. ?rest = EvInner (Target t) c canRetry # rest')"
        by (rule imp)
    qed
  qed
qed

theorem C6_replica_routes_to_rdonly_witness:
  "routeReplicaToRdonly (packageWith True []) \<and> TabletType (targetOf REPLICA) = REPLICA
   \<and> checkAllowedTabletTypes (packageWith True []) (targetOf REPLICA) = None
   \<and> 0 < sint (retryCount (gatewayWith 2 [] [] twoRdonlys (None, None)) + 1)
   \<and> tsc_GetHealthyTabletStats (gatewayWith 2 [] [] twoRdonlys (None, None))
        (Keyspace (targetOf REPLICA)) (Shard (targetOf REPLICA)) REPLICA 0 = ([], 0)
   \<and> tsc_GetHealthyTabletStats (gatewayWith 2 [] [] twoRdonlys (None, None))
        (Keyspace (targetOf REPLICA)) (Shard (targetOf REPLICA)) RDONLY 0 = (twoRdonlys, 0)
   \<and> twoRdonlys \<noteq> []
   \<and> (\<exists>t \<in> set twoRdonlys. \<exists>rest.
         log (withRetry (gatewayWith 2 [] [] twoRdonlys (None, None)) (packageWith True [])
                (targetOf REPLICA) False succeed 0)
           = [EvGetHealthyTabletStats (Keyspace (targetOf REPLICA)) (Shard (targetOf REPLICA)) REPLICA,
              EvGetHealthyTabletStats (Keyspace (targetOf REPLICA)) (Shard (targetOf REPLICA)) RDONLY,
              EvTablets twoRdonlys,
              EvGetConnection (Key t)] @ rest)"
proof -
  have a: "routeReplicaToRdonly (packageWith True [])" "TabletType (targetOf REPLICA) = REPLICA"
    by (simp_all add: packageWith_def targetOf_def)
  have b: "checkAllowedTabletTypes (packageWith True []) (targetOf REPLICA) = None
    \<and> 0 < sint (retryCount (gatewayWith 2 [] [] twoRdonlys (None, None)) + 1)
    \<and> tsc_GetHealthyTabletStats (gatewayWith 2 [] [] twoRdonlys (None, None))
        (Keyspace (targetOf REPLICA)) (Shard (targetOf REPLICA)) REPLICA 0 = ([], 0)
    \<and> tsc_GetHealthyTabletStats (gatewayWith 2 [] [] twoRdonlys (None, None))
        (Keyspace (targetOf REPLICA)) (Shard (targetOf REPLICA)) RDONLY 0 = (twoRdonlys, 0)
    \<and> twoRdonlys \<noteq> []"
    by (simp add: packageWith_def targetOf_def gatewayWith_def twoRdonlys_def
        checkAllowedTabletTypes_def)
  have c: "\<exists>t \<in> set twoRdonlys. \<exists>rest.
         log (withRetry (gatewayWith 2 [] [] twoRdonlys (None, None)) (packageWith True [])
                (targetOf REPLICA) False succeed 0)
           = [EvGetHealthyTabletStats (Keyspace (targetOf REPLICA)) (Shard (targetOf REPLICA)) REPLICA,
              EvGetHealthyTabletStats (Keyspace (targetOf REPLICA)) (Shard (targetOf REPLICA)) RDONLY,
              EvTablets twoRdonlys,
              EvGetConnection (Key t)] @ rest"
  proof -
    from C6_replica_routes_to_rdonly [OF a, of "gatewayWith 2 [] [] twoRdonlys (None, None)" _
        0 0 twoRdonlys 0 False succeed, THEN conjunct2, THEN mp, OF b]
    obtain t rest where "t \<in> set twoRdonlys"
      "log (withRetry (gatewayWith 2 [] [] twoRdonlys (None, None)) (packageWith True [])
                (targetOf REPLICA) False succeed 0)
           = [EvGetHealthyTabletStats (Keyspace (targetOf REPLICA)) (Shard (targetOf REPLICA)) REPLICA,
              EvGetHealthyTabletStats (Keyspace (targetOf REPLICA)) (Shard (targetOf REPLICA)) RDONLY,
              EvTablets twoRdonlys,
              EvGetConnection (Key t)] @ rest"
      by (elim bexE exE conjE)
    then show ?thesis
      by (intro bexI [of _ t] exI [of _ rest])
  qed
  show ?thesis
    by (intro conjI a c b [THEN conjunct1] b [THEN conjunct2, THEN conjunct1]
        b [THEN conjunct2, THEN conjunct2, THEN conjunct1]
        b [THEN conjunct2, THEN conjunct2, THEN conjunct2, THEN conjunct1]
        b [THEN conjunct2, THEN conjunct2, THEN conjunct2, THEN conjunct2])
qed

end
